theory Spec2Isabelle
  imports Main
begin

section \<open>Data model of \<open>sjtu::map\<close> (src/map/map.hpp)\<close>

text \<open>
  The map is a red-black tree of heap-allocated nodes that carry parent pointers, hung
  below a sentinel node. The code mutates nodes through pointers, so the model keeps an
  explicit store: a pointer is an \<open>addr option\<close> (\<open>None\<close> is \<open>nullptr\<close>), the node
  heap maps addresses to node records, and every method takes the heap and returns the
  updated one. Dereferencing a null or freed pointer is undefined behaviour in C++; the
  model makes it the error value \<open>undefined_behaviour\<close>. A failed \<open>assert\<close> is
  \<open>assertion_failed\<close>, the two exceptions of the library are \<open>invalid_iterator\<close> and
  \<open>index_out_of_bound\<close>.
\<close>

datatype Color = RED | BLACK

datatype Direction = LEFT | RIGHT | ROOT

datatype error = invalid_iterator | index_out_of_bound | undefined_behaviour | assertion_failed

type_synonym addr = nat

record ('k, 'v) RBTNode =
  color :: Color
  data :: "('k \<times> 'v) option"
  left :: "addr option"
  right :: "addr option"
  parent :: "addr option"

type_synonym ('k, 'v) heap = "addr \<Rightarrow> ('k, 'v) RBTNode option"

text \<open>Sequencing of fallible steps; \<open>bndo\<close> and \<open>bndp\<close> continue into a loop that may diverge.\<close>

definition bnd :: "error + 'a \<Rightarrow> ('a \<Rightarrow> error + 'b) \<Rightarrow> error + 'b" where
  "bnd x f = (case x of Inl e \<Rightarrow> Inl e | Inr a \<Rightarrow> f a)"

definition bndo :: "error + 'a \<Rightarrow> ('a \<Rightarrow> (error + 'b) option) \<Rightarrow> (error + 'b) option" where
  "bndo x f = (case x of Inl e \<Rightarrow> Some (Inl e) | Inr a \<Rightarrow> f a)"

definition bndp :: "(error + 'a) option \<Rightarrow> ('a \<Rightarrow> (error + 'b) option) \<Rightarrow> (error + 'b) option" where
  "bndp x f = (case x of None \<Rightarrow> None | Some (Inl e) \<Rightarrow> Some (Inl e) | Some (Inr a) \<Rightarrow> f a)"

lemma bndo_mono [partial_function_mono]:
  assumes "\<And>y. mono_option (\<lambda>f. C y f)"
  shows "mono_option (\<lambda>f. bndo x (\<lambda>y. C y f))"
  using assms by (cases x) (simp_all add: bndo_def option.const_mono)

lemma bndp_mono [partial_function_mono]:
  assumes mf: "mono_option B" and mg: "\<And>y. mono_option (\<lambda>f. C y f)"
  shows "mono_option (\<lambda>f. bndp (B f) (\<lambda>y. C y f))"
proof -
  have eq: "bndp x g = Option.bind x (\<lambda>r. case r of Inl e \<Rightarrow> Some (Inl e) | Inr a \<Rightarrow> g a)"
    for x :: "(error + 'c) option" and g :: "'c \<Rightarrow> (error + 'd) option"
    by (simp add: bndp_def split: option.splits sum.splits)
  have "mono_option (\<lambda>f. case r of Inl e \<Rightarrow> Some (Inl e) | Inr a \<Rightarrow> C a f)" for r
    using mg by (cases r) (simp_all add: option.const_mono)
  from bind_mono [OF mf this] show ?thesis
    unfolding eq .
qed

subsection \<open>Pointer access\<close>

definition deref :: "('k, 'v) heap \<Rightarrow> addr option \<Rightarrow> error + ('k, 'v) RBTNode" where
  "deref h p = (case p of None \<Rightarrow> Inl undefined_behaviour
     | Some a \<Rightarrow> (case h a of None \<Rightarrow> Inl undefined_behaviour | Some n \<Rightarrow> Inr n))"

definition upd :: "('k, 'v) heap \<Rightarrow> addr option \<Rightarrow> (('k, 'v) RBTNode \<Rightarrow> ('k, 'v) RBTNode)
    \<Rightarrow> error + ('k, 'v) heap" where
  "upd h p f = (case p of None \<Rightarrow> Inl undefined_behaviour
     | Some a \<Rightarrow> (case h a of None \<Rightarrow> Inl undefined_behaviour | Some n \<Rightarrow> Inr (h(a \<mapsto> f n))))"

definition get_left :: "('k, 'v) heap \<Rightarrow> addr option \<Rightarrow> error + addr option" where
  "get_left h p = bnd (deref h p) (\<lambda>n. Inr (left n))"

definition get_right :: "('k, 'v) heap \<Rightarrow> addr option \<Rightarrow> error + addr option" where
  "get_right h p = bnd (deref h p) (\<lambda>n. Inr (right n))"

definition get_parent :: "('k, 'v) heap \<Rightarrow> addr option \<Rightarrow> error + addr option" where
  "get_parent h p = bnd (deref h p) (\<lambda>n. Inr (parent n))"

definition get_color :: "('k, 'v) heap \<Rightarrow> addr option \<Rightarrow> error + Color" where
  "get_color h p = bnd (deref h p) (\<lambda>n. Inr (color n))"

text \<open>\<open>*(p->data)\<close>: the sentinel's \<open>data\<close> is null, reading through it is undefined.\<close>

definition get_data :: "('k, 'v) heap \<Rightarrow> addr option \<Rightarrow> error + ('k \<times> 'v)" where
  "get_data h p = bnd (deref h p) (\<lambda>n. case data n of None \<Rightarrow> Inl undefined_behaviour
     | Some d \<Rightarrow> Inr d)"

definition set_left :: "('k, 'v) heap \<Rightarrow> addr option \<Rightarrow> addr option \<Rightarrow> error + ('k, 'v) heap" where
  "set_left h p v = upd h p (\<lambda>n. n\<lparr>left := v\<rparr>)"

definition set_right :: "('k, 'v) heap \<Rightarrow> addr option \<Rightarrow> addr option \<Rightarrow> error + ('k, 'v) heap" where
  "set_right h p v = upd h p (\<lambda>n. n\<lparr>right := v\<rparr>)"

definition set_parent :: "('k, 'v) heap \<Rightarrow> addr option \<Rightarrow> addr option \<Rightarrow> error + ('k, 'v) heap" where
  "set_parent h p v = upd h p (\<lambda>n. n\<lparr>parent := v\<rparr>)"

definition set_color :: "('k, 'v) heap \<Rightarrow> addr option \<Rightarrow> Color \<Rightarrow> error + ('k, 'v) heap" where
  "set_color h p c = upd h p (\<lambda>n. n\<lparr>color := c\<rparr>)"

text \<open>\<open>delete p\<close>: the node must be live; its cell is released.\<close>

definition delete_node :: "('k, 'v) heap \<Rightarrow> addr option \<Rightarrow> error + ('k, 'v) heap" where
  "delete_node h p = (case p of None \<Rightarrow> Inr h
     | Some a \<Rightarrow> (case h a of None \<Rightarrow> Inl undefined_behaviour | Some n \<Rightarrow> Inr (h(a := None))))"

subsection \<open>Methods of \<open>RBTNode\<close>\<close>

definition isLeaf :: "('k, 'v) heap \<Rightarrow> addr option \<Rightarrow> error + bool" where
  "isLeaf h this = bnd (deref h this) (\<lambda>n. Inr (left n = None \<and> right n = None))"

definition isRoot :: "('k, 'v) heap \<Rightarrow> addr option \<Rightarrow> error + bool" where
  "isRoot h this = bnd (deref h this) (\<lambda>n.
     if parent n = None then Inr False
     else bnd (deref h (parent n)) (\<lambda>pn. Inr (parent pn = None)))"

definition isRed :: "('k, 'v) heap \<Rightarrow> addr option \<Rightarrow> error + bool" where
  "isRed h this = bnd (deref h this) (\<lambda>n. Inr (color n = RED))"

definition isBlack :: "('k, 'v) heap \<Rightarrow> addr option \<Rightarrow> error + bool" where
  "isBlack h this = bnd (deref h this) (\<lambda>n. Inr (color n = BLACK))"

definition direction :: "('k, 'v) heap \<Rightarrow> addr option \<Rightarrow> error + Direction" where
  "direction h this = bnd (isRoot h this) (\<lambda>r.
     if \<not> r then
       bnd (get_parent h this) (\<lambda>p. bnd (get_left h p) (\<lambda>pl.
         if this = pl then Inr LEFT else Inr RIGHT))
     else Inr ROOT)"

definition sibling :: "('k, 'v) heap \<Rightarrow> addr option \<Rightarrow> error + addr option" where
  "sibling h this = bnd (isRoot h this) (\<lambda>r.
     if r then Inl assertion_failed
     else bnd (direction h this) (\<lambda>d. bnd (get_parent h this) (\<lambda>p.
       if d = LEFT then get_right h p else get_left h p)))"

definition hasSibling :: "('k, 'v) heap \<Rightarrow> addr option \<Rightarrow> error + bool" where
  "hasSibling h this = bnd (isRoot h this) (\<lambda>r.
     if r then Inr False else bnd (sibling h this) (\<lambda>s. Inr (s \<noteq> None)))"

definition uncle :: "('k, 'v) heap \<Rightarrow> addr option \<Rightarrow> error + addr option" where
  "uncle h this = bnd (isRoot h this) (\<lambda>r.
     if r then Inl assertion_failed
     else bnd (get_parent h this) (\<lambda>p. sibling h p))"

definition hasUncle :: "('k, 'v) heap \<Rightarrow> addr option \<Rightarrow> error + bool" where
  "hasUncle h this = bnd (isRoot h this) (\<lambda>r.
     if r then Inr False else bnd (get_parent h this) (\<lambda>p. hasSibling h p))"

definition grandParent :: "('k, 'v) heap \<Rightarrow> addr option \<Rightarrow> error + addr option" where
  "grandParent h this = bnd (get_parent h this) (\<lambda>p. bnd (isRoot h p) (\<lambda>r.
     if r then Inl assertion_failed else get_parent h p))"

subsection \<open>Private methods of \<open>map\<close>: rotations and insertion\<close>

text \<open>
  The fields of a \<open>map\<close> object. The private methods read \<open>this->sentinel\<close> and
  \<open>this->len\<close> only, so they take the object's fields \<open>m\<close> and the node heap.
  The comparator \<open>Compare\<close> is a template parameter; the model takes it as the argument
  \<open>lt\<close>. Key equality is derived from it.
\<close>

record map_obj =
  sentinel :: "addr option"
  len :: nat

definition equal_key :: "('k \<Rightarrow> 'k \<Rightarrow> bool) \<Rightarrow> 'k \<Rightarrow> 'k \<Rightarrow> bool" where
  "equal_key lt x y = (\<not> (lt x y \<or> lt y x))"

definition maintainRelationship :: "('k, 'v) heap \<Rightarrow> addr option \<Rightarrow> error + ('k, 'v) heap" where
  "maintainRelationship h node =
     bnd (get_left h node) (\<lambda>l.
     bnd (if l \<noteq> None then set_parent h l node else Inr h) (\<lambda>h1.
     bnd (get_right h1 node) (\<lambda>r.
     if r \<noteq> None then set_parent h1 r node else Inr h1)))"

definition rotateLeft :: "('k, 'v) heap \<Rightarrow> map_obj \<Rightarrow> addr option \<Rightarrow> error + ('k, 'v) heap" where
  "rotateLeft h m node =
     (if node = None then Inl assertion_failed else
      bnd (get_right h node) (\<lambda>nr. if nr = None then Inl assertion_failed else
      bnd (get_parent h node) (\<lambda>p.
      bnd (direction h node) (\<lambda>d.
      bnd (get_right h node) (\<lambda>successor.
      bnd (get_left h successor) (\<lambda>sl.
      bnd (set_right h node sl) (\<lambda>h1.
      bnd (set_left h1 successor node) (\<lambda>h2.
      bnd (maintainRelationship h2 node) (\<lambda>h3.
      bnd (maintainRelationship h3 successor) (\<lambda>h4.
      bnd (case d of ROOT \<Rightarrow> set_left h4 (sentinel m) successor
           | LEFT \<Rightarrow> set_left h4 p successor
           | RIGHT \<Rightarrow> set_right h4 p successor) (\<lambda>h5.
      set_parent h5 successor p)))))))))))"

definition rotateRight :: "('k, 'v) heap \<Rightarrow> map_obj \<Rightarrow> addr option \<Rightarrow> error + ('k, 'v) heap" where
  "rotateRight h m node =
     (if node = None then Inl assertion_failed else
      bnd (get_left h node) (\<lambda>nl. if nl = None then Inl assertion_failed else
      bnd (get_parent h node) (\<lambda>p.
      bnd (direction h node) (\<lambda>d.
      bnd (get_left h node) (\<lambda>successor.
      bnd (get_right h successor) (\<lambda>sr.
      bnd (set_left h node sr) (\<lambda>h1.
      bnd (set_right h1 successor node) (\<lambda>h2.
      bnd (maintainRelationship h2 node) (\<lambda>h3.
      bnd (maintainRelationship h3 successor) (\<lambda>h4.
      bnd (case d of ROOT \<Rightarrow> set_left h4 (sentinel m) successor
           | LEFT \<Rightarrow> set_left h4 p successor
           | RIGHT \<Rightarrow> set_right h4 p successor) (\<lambda>h5.
      set_parent h5 successor p)))))))))))"

definition rotateSameDirection :: "('k, 'v) heap \<Rightarrow> map_obj \<Rightarrow> addr option \<Rightarrow> Direction
    \<Rightarrow> error + ('k, 'v) heap" where
  "rotateSameDirection h m node d =
     (case d of LEFT \<Rightarrow> rotateLeft h m node | _ \<Rightarrow> rotateRight h m node)"

definition rotateOppositeDirection :: "('k, 'v) heap \<Rightarrow> map_obj \<Rightarrow> addr option \<Rightarrow> Direction
    \<Rightarrow> error + ('k, 'v) heap" where
  "rotateOppositeDirection h m node d =
     (case d of LEFT \<Rightarrow> rotateRight h m node | _ \<Rightarrow> rotateLeft h m node)"

text \<open>
  \<open>maintainAfterInsert\<close>, cases 5 and 6 (parent RED, uncle BLACK or absent): the block
  of the source after the recursive case, which ends the fix-up.
\<close>

definition maintainAfterInsert_rotate :: "('k, 'v) heap \<Rightarrow> map_obj \<Rightarrow> addr option
    \<Rightarrow> error + ('k, 'v) heap" where
  "maintainAfterInsert_rotate h m node =
     bnd (isRoot h node) (\<lambda>r. if r then Inl assertion_failed else
     bnd (direction h node) (\<lambda>dn.
     bnd (bnd (get_parent h node) (direction h)) (\<lambda>dp.
     bnd (if dn \<noteq> dp then
            bnd (get_parent h node) (\<lambda>p.
            bnd (direction h node) (\<lambda>d.
            bnd (if d = LEFT then rotateRight h m p else rotateLeft h m p) (\<lambda>h1.
            Inr (h1, p))))
          else Inr (h, node)) (\<lambda>(h1, node1).
     bnd (grandParent h1 node1) (\<lambda>g. if g = None then Inl assertion_failed else
     bnd (bnd (get_parent h1 node1) (direction h1)) (\<lambda>pd.
     bnd (bnd (grandParent h1 node1) (\<lambda>g.
            if pd = LEFT then rotateRight h1 m g else rotateLeft h1 m g)) (\<lambda>h2.
     bnd (bnd (get_parent h2 node1) (\<lambda>p. set_color h2 p BLACK)) (\<lambda>h3.
     bnd (sibling h3 node1) (\<lambda>s. set_color h3 s RED)))))))))"

partial_function (option) maintainAfterInsert :: "('k, 'v) heap \<Rightarrow> map_obj \<Rightarrow> addr option
    \<Rightarrow> (error + ('k, 'v) heap) option" where
  "maintainAfterInsert h m node =
     (if node = None then Some (Inl assertion_failed) else
      bndo (isRoot h node) (\<lambda>r. if r then Some (set_color h node BLACK) else
      bndo (bnd (get_parent h node) (isBlack h)) (\<lambda>pb. if pb then Some (Inr h) else
      bndo (bnd (hasUncle h node) (\<lambda>hu.
              if hu then bnd (uncle h node) (isRed h) else Inr False)) (\<lambda>c4.
      if c4 then
        bndo (bnd (get_parent h node) (isRed h)) (\<lambda>pr.
        if \<not> pr then Some (Inl assertion_failed) else
        bndo (bnd (get_parent h node) (\<lambda>p. set_color h p BLACK)) (\<lambda>h1.
        bndo (bnd (uncle h1 node) (\<lambda>u. set_color h1 u BLACK)) (\<lambda>h2.
        bndo (bnd (grandParent h2 node) (\<lambda>g. set_color h2 g RED)) (\<lambda>h3.
        bndo (grandParent h3 node) (\<lambda>g. maintainAfterInsert h3 m g)))))
      else
        bndo (bnd (hasUncle h node) (\<lambda>hu.
                if \<not> hu then Inr True else bnd (uncle h node) (isBlack h))) (\<lambda>c56.
        if c56 then Some (maintainAfterInsert_rotate h m node) else Some (Inr h))))))"

text \<open>
  The private \<open>insert\<close> takes the pointer it may overwrite by reference
  (\<open>RBTNode*& node\<close>): the reference is the field of the node it lives in. \<open>new\<close>
  takes the next unused address \<open>b\<close> and returns the advanced one.
\<close>

datatype ref = LeftOf "addr option" | RightOf "addr option"

definition get_ref :: "('k, 'v) heap \<Rightarrow> ref \<Rightarrow> error + addr option" where
  "get_ref h r = (case r of LeftOf p \<Rightarrow> get_left h p | RightOf p \<Rightarrow> get_right h p)"

definition set_ref :: "('k, 'v) heap \<Rightarrow> ref \<Rightarrow> addr option \<Rightarrow> error + ('k, 'v) heap" where
  "set_ref h r v = (case r of LeftOf p \<Rightarrow> set_left h p v | RightOf p \<Rightarrow> set_right h p v)"

definition new_node :: "('k, 'v) heap \<Rightarrow> addr \<Rightarrow> ('k, 'v) RBTNode
    \<Rightarrow> ('k, 'v) heap \<times> addr \<times> addr option" where
  "new_node h b n = (h(b \<mapsto> n), Suc b, Some b)"

partial_function (option) insert_rec :: "('k \<Rightarrow> 'k \<Rightarrow> bool) \<Rightarrow> ('k, 'v) heap \<Rightarrow> addr
    \<Rightarrow> 'k \<times> 'v \<Rightarrow> ref \<Rightarrow> addr option
    \<Rightarrow> (error + (('k, 'v) heap \<times> addr) \<times> (addr option \<times> bool)) option" where
  "insert_rec lt h b val node p =
     bndo (get_ref h node) (\<lambda>n.
     if n = None then
       (case new_node h b \<lparr>color = RED, data = Some val, left = None, right = None, parent = p\<rparr>
        of (h1, b1, a) \<Rightarrow> bndo (set_ref h1 node a) (\<lambda>h2. Some (Inr ((h2, b1), (a, True)))))
     else
       bndo (get_data h n) (\<lambda>d.
       if equal_key lt (fst d) (fst val) then Some (Inr ((h, b), (n, False)))
       else if lt (fst val) (fst d) then insert_rec lt h b val (LeftOf n) n
       else insert_rec lt h b val (RightOf n) n))"

partial_function (option) find_rec :: "('k \<Rightarrow> 'k \<Rightarrow> bool) \<Rightarrow> ('k, 'v) heap \<Rightarrow> 'k \<Rightarrow> addr option
    \<Rightarrow> (error + addr option) option" where
  "find_rec lt h key node =
     (if node = None then Some (Inr node) else
      bndo (get_data h node) (\<lambda>d.
      if equal_key lt key (fst d) then Some (Inr node)
      else if lt key (fst d) then bndo (get_left h node) (find_rec lt h key)
      else bndo (get_right h node) (find_rec lt h key)))"

subsection \<open>Private methods of \<open>map\<close>: removal\<close>

definition set_parent_if :: "('k, 'v) heap \<Rightarrow> addr option \<Rightarrow> addr option \<Rightarrow> error + ('k, 'v) heap" where
  \<comment> \<open>\<open>if (c) c->parent = p;\<close>\<close>
  "set_parent_if h c p = (if c \<noteq> None then set_parent h c p else Inr h)"

definition relink :: "('k, 'v) heap \<Rightarrow> addr option \<Rightarrow> addr option \<Rightarrow> addr option
    \<Rightarrow> error + ('k, 'v) heap" where
  \<comment> \<open>\<open>if (p) { if (p->left == old) p->left = new; else if (p->right == old) p->right = new; }\<close>\<close>
  "relink h p old new =
     (if p \<noteq> None then
        bnd (get_left h p) (\<lambda>l. if l = old then set_left h p new
        else bnd (get_right h p) (\<lambda>r. if r = old then set_right h p new else Inr h))
      else Inr h)"

definition swapNode :: "('k, 'v) heap \<Rightarrow> addr option \<Rightarrow> addr option \<Rightarrow> error + ('k, 'v) heap" where
  "swapNode h lhs rhs =
     (if lhs = rhs then Inr h else
      bnd (get_left h lhs) (\<lambda>ll. bnd (get_left h rhs) (\<lambda>rl.
      bnd (set_left h lhs rl) (\<lambda>h1. bnd (set_left h1 rhs ll) (\<lambda>h2.
      bnd (get_right h2 lhs) (\<lambda>lr. bnd (get_right h2 rhs) (\<lambda>rr.
      bnd (set_right h2 lhs rr) (\<lambda>h3. bnd (set_right h3 rhs lr) (\<lambda>h4.
      bnd (bnd (get_left h4 lhs) (\<lambda>c. set_parent_if h4 c lhs)) (\<lambda>h5.
      bnd (bnd (get_right h5 lhs) (\<lambda>c. set_parent_if h5 c lhs)) (\<lambda>h6.
      bnd (bnd (get_left h6 rhs) (\<lambda>c. set_parent_if h6 c rhs)) (\<lambda>h7.
      bnd (bnd (get_right h7 rhs) (\<lambda>c. set_parent_if h7 c rhs)) (\<lambda>h8.
      bnd (get_parent h8 lhs) (\<lambda>lp. bnd (get_parent h8 rhs) (\<lambda>rp.
      bnd (set_parent h8 lhs rp) (\<lambda>h9. bnd (set_parent h9 rhs lp) (\<lambda>h10.
      bnd (bnd (get_parent h10 lhs) (\<lambda>p. relink h10 p rhs lhs)) (\<lambda>h11.
      bnd (bnd (get_parent h11 rhs) (\<lambda>p. relink h11 p lhs rhs)) (\<lambda>h12.
      bnd (get_color h12 lhs) (\<lambda>lc. bnd (get_color h12 rhs) (\<lambda>rc.
      bnd (set_color h12 lhs rc) (\<lambda>h13. set_color h13 rhs lc))))))))))))))))))))))"

text \<open>\<open>maintainAfterRemove\<close>, case 1: the sibling is RED.\<close>

definition maintainAfterRemove_case1 :: "('k, 'v) heap \<Rightarrow> map_obj \<Rightarrow> addr option \<Rightarrow> Direction
    \<Rightarrow> addr option \<Rightarrow> error + ('k, 'v) heap \<times> addr option" where
  "maintainAfterRemove_case1 h m node dir sib =
     bnd (get_parent h node) (\<lambda>par.
     bnd (if par \<noteq> None then isBlack h par else Inr False) (\<lambda>a1.
     if \<not> a1 then Inl assertion_failed else
     bnd (bnd (get_left h sib) (\<lambda>c. if c \<noteq> None then isBlack h c else Inr False)) (\<lambda>a2.
     if \<not> a2 then Inl assertion_failed else
     bnd (bnd (get_right h sib) (\<lambda>c. if c \<noteq> None then isBlack h c else Inr False)) (\<lambda>a3.
     if \<not> a3 then Inl assertion_failed else
     bnd (bnd (get_parent h node) (\<lambda>p. rotateSameDirection h m p dir)) (\<lambda>h1.
     bnd (set_color h1 sib BLACK) (\<lambda>h2.
     bnd (set_color h2 par RED) (\<lambda>h3.
     bnd (sibling h3 node) (\<lambda>sib'. Inr (h3, sib')))))))))"

text \<open>Case 4: the close nephew is RED.\<close>

definition maintainAfterRemove_case4 :: "('k, 'v) heap \<Rightarrow> map_obj \<Rightarrow> addr option \<Rightarrow> Direction
    \<Rightarrow> addr option \<Rightarrow> addr option
    \<Rightarrow> error + ('k, 'v) heap \<times> addr option \<times> addr option \<times> addr option" where
  "maintainAfterRemove_case4 h m node dir sib closeNephew =
     bnd (rotateOppositeDirection h m sib dir) (\<lambda>h1.
     bnd (set_color h1 closeNephew BLACK) (\<lambda>h2.
     bnd (set_color h2 sib RED) (\<lambda>h3.
     bnd (sibling h3 node) (\<lambda>sib'.
     bnd (if dir = LEFT then get_left h3 sib' else get_right h3 sib') (\<lambda>cn'.
     bnd (if dir = LEFT then get_right h3 sib' else get_left h3 sib') (\<lambda>dn'.
     Inr (h3, sib', cn', dn')))))))"

text \<open>Case 5: the distant nephew is RED.\<close>

definition maintainAfterRemove_case5 :: "('k, 'v) heap \<Rightarrow> map_obj \<Rightarrow> addr option \<Rightarrow> Direction
    \<Rightarrow> addr option \<Rightarrow> addr option \<Rightarrow> error + ('k, 'v) heap" where
  "maintainAfterRemove_case5 h m node dir sib distantNephew =
     bnd (isRed h distantNephew) (\<lambda>dr. if \<not> dr then Inl assertion_failed else
     bnd (bnd (get_parent h node) (\<lambda>p. rotateSameDirection h m p dir)) (\<lambda>h1.
     bnd (bnd (get_parent h1 node) (get_color h1)) (\<lambda>pc.
     bnd (set_color h1 sib pc) (\<lambda>h2.
     bnd (bnd (get_parent h2 node) (\<lambda>p. set_color h2 p BLACK)) (\<lambda>h3.
     if distantNephew \<noteq> None then set_color h3 distantNephew BLACK else Inr h3)))))"

partial_function (option) maintainAfterRemove :: "('k, 'v) heap \<Rightarrow> map_obj \<Rightarrow> addr option
    \<Rightarrow> (error + ('k, 'v) heap) option" where
  "maintainAfterRemove h m node =
     bndo (isRoot h node) (\<lambda>r. if r then Some (Inr h) else
     bndo (bnd (isBlack h node) (\<lambda>b. if b then hasSibling h node else Inr False)) (\<lambda>a.
     if \<not> a then Some (Inl assertion_failed) else
     bndo (direction h node) (\<lambda>dir.
     bndo (sibling h node) (\<lambda>sib0.
     bndo (bnd (isRed h sib0) (\<lambda>sr.
             if sr then maintainAfterRemove_case1 h m node dir sib0 else Inr (h, sib0)))
       (\<lambda>(h1, sib).
     bndo (if dir = LEFT then get_left h1 sib else get_right h1 sib) (\<lambda>closeNephew.
     bndo (if dir = LEFT then get_right h1 sib else get_left h1 sib) (\<lambda>distantNephew.
     bndo (if closeNephew = None then Inr True else isBlack h1 closeNephew)
       (\<lambda>closeNephewIsBlack.
     bndo (if distantNephew = None then Inr True else isBlack h1 distantNephew)
       (\<lambda>distantNephewIsBlack.
     bndo (isBlack h1 sib) (\<lambda>sb. if \<not> sb then Some (Inl assertion_failed) else
     if closeNephewIsBlack \<and> distantNephewIsBlack then
       bndo (bnd (get_parent h1 node) (isRed h1)) (\<lambda>pr.
       if pr then
         Some (bnd (set_color h1 sib RED) (\<lambda>h2.
               bnd (get_parent h2 node) (\<lambda>p. set_color h2 p BLACK)))
       else
         bndo (set_color h1 sib RED) (\<lambda>h2.
         bndo (get_parent h2 node) (\<lambda>p. maintainAfterRemove h2 m p)))
     else
       Some (bnd (bnd (if closeNephew \<noteq> None then isRed h1 closeNephew else Inr False) (\<lambda>c4.
                    if c4 then maintainAfterRemove_case4 h1 m node dir sib closeNephew
                    else Inr (h1, sib, closeNephew, distantNephew)))
               (\<lambda>(h2, sib2, cn2, dn2).
                    maintainAfterRemove_case5 h2 m node dir sib2 dn2))))))))))))"

text \<open>The search for the in-order successor inside \<open>remove\<close>.\<close>

partial_function (option) findSuccessor :: "('k, 'v) heap \<Rightarrow> addr option \<Rightarrow> addr option
    \<Rightarrow> (error + addr option \<times> addr option) option" where
  "findSuccessor h par successor =
     bndo (get_left h successor) (\<lambda>l.
     if l \<noteq> None then findSuccessor h successor l else Some (Inr (par, successor)))"

definition remove_swap :: "('k, 'v) heap \<Rightarrow> addr option \<Rightarrow> (error + ('k, 'v) heap) option" where
  \<comment> \<open>Case 1 of \<open>remove\<close>: the node has two children.\<close>
  "remove_swap h node =
     bndo (get_parent h node) (\<lambda>p.
     bndo (get_right h node) (\<lambda>nr.
     bndp (findSuccessor h node nr) (\<lambda>(par, successor).
     Some (bnd (swapNode h node successor) (\<lambda>h1.
           bnd (maintainRelationship h1 par) (\<lambda>h2.
           maintainRelationship h2 p))))))"

definition remove_leaf :: "('k, 'v) heap \<Rightarrow> map_obj \<Rightarrow> addr option
    \<Rightarrow> (error + ('k, 'v) heap) option" where
  \<comment> \<open>Case 2 of \<open>remove\<close>: the node is a leaf.\<close>
  "remove_leaf h m node =
     bndo (isRoot h node) (\<lambda>r. if r then Some (Inl assertion_failed) else
     bndo (isBlack h node) (\<lambda>b.
     bndp (if b then maintainAfterRemove h m node else Some (Inr h)) (\<lambda>h1.
     Some (bnd (direction h1 node) (\<lambda>d.
           bnd (get_parent h1 node) (\<lambda>p.
           if d = LEFT then set_left h1 p None else set_right h1 p None))))))"

definition remove_single :: "('k, 'v) heap \<Rightarrow> map_obj \<Rightarrow> addr option
    \<Rightarrow> (error + ('k, 'v) heap) option" where
  \<comment> \<open>Case 3 of \<open>remove\<close>: the node has a single child.\<close>
  "remove_single h m node =
     bndo (bnd (get_left h node) (\<lambda>l. bnd (get_right h node) (\<lambda>r.
             Inr (l = None \<or> r = None)))) (\<lambda>a.
     if \<not> a then Some (Inl assertion_failed) else
     bndo (get_parent h node) (\<lambda>par.
     bndo (bnd (get_left h node) (\<lambda>l. if l \<noteq> None then Inr l else get_right h node))
       (\<lambda>replacement.
     bndo (bnd (direction h node) (\<lambda>d. case d of
               ROOT \<Rightarrow> set_left h (sentinel m) replacement
             | LEFT \<Rightarrow> set_left h par replacement
             | RIGHT \<Rightarrow> set_right h par replacement)) (\<lambda>h1.
     bndo (set_parent h1 replacement par) (\<lambda>h2.
     bndo (isBlack h2 node) (\<lambda>b.
     if b then
       bndo (isRed h2 replacement) (\<lambda>rr.
       if rr then Some (set_color h2 replacement BLACK)
       else maintainAfterRemove h2 m replacement)
     else Some (Inr h2)))))))"

definition remove :: "('k, 'v) heap \<Rightarrow> map_obj \<Rightarrow> addr option \<Rightarrow> (error + ('k, 'v) heap) option" where
  "remove h m node =
     (if node = None then Some (Inl assertion_failed)
      else if len m = 1 then
        Some (bnd (set_left h (sentinel m) None) (\<lambda>h1. delete_node h1 node))
      else
        bndo (bnd (get_left h node) (\<lambda>l. bnd (get_right h node) (\<lambda>r.
                Inr (l \<noteq> None \<and> r \<noteq> None)))) (\<lambda>two.
        bndp (if two then remove_swap h node else Some (Inr h)) (\<lambda>h1.
        bndo (isLeaf h1 node) (\<lambda>lf.
        bndp (if lf then remove_leaf h1 m node else remove_single h1 m node) (\<lambda>h2.
        Some (delete_node h2 node))))))"

subsection \<open>Private methods of \<open>map\<close>: clearing and copying\<close>

partial_function (option) clear_rec :: "('k, 'v) heap \<Rightarrow> addr option
    \<Rightarrow> (error + ('k, 'v) heap) option" where
  "clear_rec h node =
     (if node = None then Some (Inr h) else
      bndo (set_parent h node None) (\<lambda>h1.
      bndo (get_left h1 node) (\<lambda>l.
      bndp (if l \<noteq> None then clear_rec h1 l else Some (Inr h1)) (\<lambda>h2.
      bndo (get_right h2 node) (\<lambda>r.
      bndp (if r \<noteq> None then clear_rec h2 r else Some (Inr h2)) (\<lambda>h3.
      Some (delete_node h3 node)))))))"

partial_function (option) copy_rec :: "('k, 'v) heap \<Rightarrow> addr \<Rightarrow> ref \<Rightarrow> addr option
    \<Rightarrow> (error + ('k, 'v) heap \<times> addr) option" where
  "copy_rec h b node ori =
     (if ori = None then Some (Inr (h, b)) else
      bndo (get_data h ori) (\<lambda>d.
      bndo (get_color h ori) (\<lambda>c.
      (case new_node h b \<lparr>color = c, data = Some d, left = None, right = None, parent = None\<rparr>
       of (h1, b1, a) \<Rightarrow>
      bndo (set_ref h1 node a) (\<lambda>h2.
      bndo (get_ref h2 node) (\<lambda>n.
      bndo (get_left h2 ori) (\<lambda>ol.
      bndp (copy_rec h2 b1 (LeftOf n) ol) (\<lambda>(h3, b3).
      bndo (bnd (get_left h3 n) (\<lambda>c. set_parent_if h3 c n)) (\<lambda>h4.
      bndo (get_right h4 ori) (\<lambda>orr.
      bndp (copy_rec h4 b3 (RightOf n) orr) (\<lambda>(h5, b5).
      bndo (bnd (get_right h5 n) (\<lambda>c. set_parent_if h5 c n)) (\<lambda>h6.
      Some (Inr (h6, b5))))))))))))))"

subsection \<open>Program state, iterators\<close>

text \<open>
  The state holds the node heap, the next unused address and the live \<open>map\<close> objects,
  each at its own address (\<open>this\<close>). An iterator holds the two pointers of the source.
\<close>

record ('k, 'v) state =
  heap :: "('k, 'v) heap"
  brk :: addr
  maps :: "addr \<Rightarrow> map_obj option"

record iterator =
  map_ptr :: "addr option"
  ptr :: "addr option"

definition get_map :: "('k, 'v) state \<Rightarrow> addr option \<Rightarrow> error + map_obj" where
  "get_map st p = (case p of None \<Rightarrow> Inl undefined_behaviour
     | Some a \<Rightarrow> (case maps st a of None \<Rightarrow> Inl undefined_behaviour | Some m \<Rightarrow> Inr m))"

partial_function (option) descend_left :: "('k, 'v) heap \<Rightarrow> addr option
    \<Rightarrow> (error + addr option) option" where
  \<comment> \<open>\<open>while (p->left) p = p->left;\<close>\<close>
  "descend_left h p =
     bndo (get_left h p) (\<lambda>l. if l \<noteq> None then descend_left h l else Some (Inr p))"

partial_function (option) descend_right :: "('k, 'v) heap \<Rightarrow> addr option
    \<Rightarrow> (error + addr option) option" where
  \<comment> \<open>\<open>while (p->right) p = p->right;\<close>\<close>
  "descend_right h p =
     bndo (get_right h p) (\<lambda>r. if r \<noteq> None then descend_right h r else Some (Inr p))"

partial_function (option) climb_right :: "('k, 'v) heap \<Rightarrow> addr option
    \<Rightarrow> (error + addr option) option" where
  \<comment> \<open>\<open>while (1) { if (p->direction() == RIGHT) p = p->parent; else { p = p->parent; break; } }\<close>\<close>
  "climb_right h p =
     bndo (direction h p) (\<lambda>d.
     if d = RIGHT then bndo (get_parent h p) (climb_right h)
     else Some (get_parent h p))"

partial_function (option) climb_left :: "('k, 'v) heap \<Rightarrow> addr option
    \<Rightarrow> (error + addr option) option" where
  \<comment> \<open>\<open>while (p->direction() == LEFT) p = p->parent; p = p->parent;\<close>\<close>
  "climb_left h p =
     bndo (direction h p) (\<lambda>d.
     if d = LEFT then bndo (get_parent h p) (climb_left h)
     else Some (get_parent h p))"

definition iterator_increment :: "('k, 'v) state \<Rightarrow> iterator \<Rightarrow> (error + iterator) option" where
  \<comment> \<open>\<open>iterator& operator++()\<close>\<close>
  "iterator_increment st it =
     bndo (get_map st (map_ptr it)) (\<lambda>m.
     if ptr it = sentinel m then Some (Inl invalid_iterator) else
     bndo (get_right (heap st) (ptr it)) (\<lambda>r.
     if r \<noteq> None then
       bndp (descend_left (heap st) r) (\<lambda>p. Some (Inr (it\<lparr>ptr := p\<rparr>)))
     else
       bndp (climb_right (heap st) (ptr it)) (\<lambda>p. Some (Inr (it\<lparr>ptr := p\<rparr>)))))"

definition iterator_decrement :: "('k, 'v) state \<Rightarrow> iterator \<Rightarrow> (error + iterator) option" where
  \<comment> \<open>\<open>iterator& operator--()\<close>\<close>
  "iterator_decrement st it =
     bndo (get_map st (map_ptr it)) (\<lambda>m.
     bndp (descend_left (heap st) (sentinel m)) (\<lambda>begin_ptr.
     if ptr it = begin_ptr then Some (Inl invalid_iterator) else
     bndo (get_left (heap st) (ptr it)) (\<lambda>l.
     if l \<noteq> None then
       bndp (descend_right (heap st) l) (\<lambda>p. Some (Inr (it\<lparr>ptr := p\<rparr>)))
     else
       bndp (climb_left (heap st) (ptr it)) (\<lambda>p. Some (Inr (it\<lparr>ptr := p\<rparr>))))))"

definition iterator_deref :: "('k, 'v) state \<Rightarrow> iterator \<Rightarrow> error + ('k \<times> 'v)" where
  \<comment> \<open>\<open>value_type& operator*() const\<close>\<close>
  "iterator_deref st it =
     bnd (get_map st (map_ptr it)) (\<lambda>m.
     if ptr it = sentinel m then Inl invalid_iterator else get_data (heap st) (ptr it))"

definition iterator_arrow :: "('k, 'v) state \<Rightarrow> iterator \<Rightarrow> error + ('k \<times> 'v) option" where
  \<comment> \<open>\<open>value_type* operator->() const noexcept\<close>: the pointer \<open>ptr->data\<close>, \<open>None\<close> when null.\<close>
  "iterator_arrow st it = bnd (deref (heap st) (ptr it)) (\<lambda>n. Inr (data n))"

definition iterator_eq :: "iterator \<Rightarrow> iterator \<Rightarrow> bool" where
  \<comment> \<open>\<open>bool operator==(const iterator& rhs) const\<close>\<close>
  "iterator_eq a b = (map_ptr a = map_ptr b \<and> ptr a = ptr b)"

subsection \<open>Public methods of \<open>map\<close>\<close>

definition map_ctor :: "('k, 'v) state \<Rightarrow> addr \<Rightarrow> ('k, 'v) state" where
  \<comment> \<open>\<open>map()\<close>, constructing the object at address \<open>this\<close>\<close>
  "map_ctor st this =
     (case new_node (heap st) (brk st)
             \<lparr>color = RED, data = None, left = None, right = None, parent = None\<rparr>
      of (h1, b1, a) \<Rightarrow>
        st\<lparr>heap := h1, brk := b1, maps := (maps st)(this \<mapsto> \<lparr>sentinel = a, len = 0\<rparr>)\<rparr>)"

definition map_end :: "('k, 'v) state \<Rightarrow> addr \<Rightarrow> error + iterator" where
  "map_end st this =
     bnd (get_map st (Some this)) (\<lambda>m. Inr \<lparr>map_ptr = Some this, ptr = sentinel m\<rparr>)"

definition map_begin :: "('k, 'v) state \<Rightarrow> addr \<Rightarrow> (error + iterator) option" where
  "map_begin st this =
     bndo (get_map st (Some this)) (\<lambda>m.
     bndp (descend_left (heap st) (sentinel m)) (\<lambda>node.
     Some (Inr \<lparr>map_ptr = Some this, ptr = node\<rparr>)))"

definition map_size :: "('k, 'v) state \<Rightarrow> addr \<Rightarrow> error + nat" where
  "map_size st this = bnd (get_map st (Some this)) (\<lambda>m. Inr (len m))"

definition map_empty :: "('k, 'v) state \<Rightarrow> addr \<Rightarrow> error + bool" where
  "map_empty st this = bnd (get_map st (Some this)) (\<lambda>m. Inr (len m = 0))"

definition map_find :: "('k \<Rightarrow> 'k \<Rightarrow> bool) \<Rightarrow> ('k, 'v) state \<Rightarrow> addr \<Rightarrow> 'k
    \<Rightarrow> (error + iterator) option" where
  "map_find lt st this key =
     bndo (get_map st (Some this)) (\<lambda>m.
     bndo (get_left (heap st) (sentinel m)) (\<lambda>root.
     bndp (find_rec lt (heap st) key root) (\<lambda>node.
     if node \<noteq> None then Some (Inr \<lparr>map_ptr = Some this, ptr = node\<rparr>)
     else Some (map_end st this))))"

definition map_count :: "('k \<Rightarrow> 'k \<Rightarrow> bool) \<Rightarrow> ('k, 'v) state \<Rightarrow> addr \<Rightarrow> 'k
    \<Rightarrow> (error + nat) option" where
  "map_count lt st this key =
     bndo (get_map st (Some this)) (\<lambda>m.
     bndo (get_left (heap st) (sentinel m)) (\<lambda>root.
     bndp (find_rec lt (heap st) key root) (\<lambda>node.
     if node \<noteq> None then Some (Inr 1) else Some (Inr 0))))"

text \<open>
  A reference \<open>T&\<close> to a mapped value is the node that holds it, paired with the value
  read through \<open>p->data->second\<close>.
\<close>

definition map_at :: "('k \<Rightarrow> 'k \<Rightarrow> bool) \<Rightarrow> ('k, 'v) state \<Rightarrow> addr \<Rightarrow> 'k
    \<Rightarrow> (error + addr option \<times> 'v) option" where
  "map_at lt st this key =
     bndo (get_map st (Some this)) (\<lambda>m.
     bndo (get_left (heap st) (sentinel m)) (\<lambda>root.
     bndp (find_rec lt (heap st) key root) (\<lambda>p.
     if p \<noteq> None then Some (bnd (get_data (heap st) p) (\<lambda>d. Inr (p, snd d)))
     else Some (Inl index_out_of_bound))))"

definition map_index_const :: "('k \<Rightarrow> 'k \<Rightarrow> bool) \<Rightarrow> ('k, 'v) state \<Rightarrow> addr \<Rightarrow> 'k
    \<Rightarrow> (error + addr option \<times> 'v) option" where
  \<comment> \<open>\<open>const T& operator[](const Key& key) const\<close>\<close>
  "map_index_const lt st this key =
     bndo (get_map st (Some this)) (\<lambda>m.
     bndo (get_left (heap st) (sentinel m)) (\<lambda>root.
     bndp (find_rec lt (heap st) key root) (\<lambda>p.
     if p \<noteq> None then Some (bnd (get_data (heap st) p) (\<lambda>d. Inr (p, snd d)))
     else Some (Inl index_out_of_bound))))"

definition map_insert :: "('k \<Rightarrow> 'k \<Rightarrow> bool) \<Rightarrow> ('k, 'v) state \<Rightarrow> addr \<Rightarrow> 'k \<times> 'v
    \<Rightarrow> (error + ('k, 'v) state \<times> iterator \<times> bool) option" where
  "map_insert lt st this val =
     bndo (get_map st (Some this)) (\<lambda>m.
     bndp (insert_rec lt (heap st) (brk st) val (LeftOf (sentinel m)) (sentinel m))
       (\<lambda>((h1, b1), (node, inserted)).
     bndp (if inserted then
             bndp (maintainAfterInsert h1 m node) (\<lambda>h2. Some (Inr (h2, m\<lparr>len := len m + 1\<rparr>)))
           else Some (Inr (h1, m))) (\<lambda>(h2, m2).
     Some (Inr (st\<lparr>heap := h2, brk := b1, maps := (maps st)(this \<mapsto> m2)\<rparr>,
                \<lparr>map_ptr = Some this, ptr = node\<rparr>, inserted)))))"

definition map_index :: "('k \<Rightarrow> 'k \<Rightarrow> bool) \<Rightarrow> 'v \<Rightarrow> ('k, 'v) state \<Rightarrow> addr \<Rightarrow> 'k
    \<Rightarrow> (error + ('k, 'v) state \<times> addr option \<times> 'v) option" where
  \<comment> \<open>\<open>T& operator[](const Key& key)\<close>; \<open>dflt\<close> is the value \<open>T()\<close>\<close>
  "map_index lt dflt st this key =
     bndp (map_insert lt st this (key, dflt)) (\<lambda>(st1, tmp).
     Some (bnd (iterator_arrow st1 (fst tmp)) (\<lambda>d.
       case d of None \<Rightarrow> Inl undefined_behaviour
       | Some kv \<Rightarrow> Inr (st1, ptr (fst tmp), snd kv))))"

definition map_erase :: "('k, 'v) state \<Rightarrow> addr \<Rightarrow> iterator \<Rightarrow> (error + ('k, 'v) state) option" where
  \<comment> \<open>\<open>len--\<close> on a \<open>size_t\<close> wraps at zero\<close>
  "map_erase st this pos =
     bndo (get_map st (Some this)) (\<lambda>m.
     bndo (map_end st this) (\<lambda>e.
     if iterator_eq pos e \<or> map_ptr pos \<noteq> Some this then Some (Inl invalid_iterator) else
     bndp (remove (heap st) m (ptr pos)) (\<lambda>h1.
     Some (Inr (st\<lparr>heap := h1,
       maps := (maps st)(this \<mapsto> m\<lparr>len := (if len m = 0 then 2 ^ 64 - 1 else len m - 1)\<rparr>)\<rparr>)))))"

definition map_clear :: "('k, 'v) state \<Rightarrow> addr \<Rightarrow> (error + ('k, 'v) state) option" where
  "map_clear st this =
     bndo (get_map st (Some this)) (\<lambda>m.
     bndo (get_left (heap st) (sentinel m)) (\<lambda>root.
     bndp (clear_rec (heap st) root) (\<lambda>h1.
     bndo (set_left h1 (sentinel m) None) (\<lambda>h2.
     Some (Inr (st\<lparr>heap := h2, maps := (maps st)(this \<mapsto> m\<lparr>len := 0\<rparr>)\<rparr>))))))"

definition map_assign :: "('k, 'v) state \<Rightarrow> addr \<Rightarrow> addr \<Rightarrow> (error + ('k, 'v) state) option" where
  \<comment> \<open>\<open>map& operator=(const map& other)\<close>\<close>
  "map_assign st this other =
     (if this = other then Some (Inr st) else
      bndo (get_map st (Some this)) (\<lambda>m.
      bndo (get_map st (Some other)) (\<lambda>om.
      bndo (get_left (heap st) (sentinel m)) (\<lambda>root.
      bndp (clear_rec (heap st) root) (\<lambda>h1.
      bndo (get_left h1 (sentinel om)) (\<lambda>oroot.
      bndp (copy_rec h1 (brk st) (LeftOf (sentinel m)) oroot) (\<lambda>(h2, b2).
      bndo (bnd (get_left h2 (sentinel m)) (\<lambda>c. set_parent_if h2 c (sentinel m))) (\<lambda>h3.
      Some (Inr (st\<lparr>heap := h3, brk := b2,
                   maps := (maps st)(this \<mapsto> m\<lparr>len := len om\<rparr>)\<rparr>))))))))))"


section \<open>Abstraction: the tree a heap represents\<close>

text \<open>
  The invariants of the specification are stated on the tree that the nodes below the
  sentinel form. \<open>rep h p t\<close> says that the heap \<open>h\<close> holds the tree \<open>t\<close> with its
  root's parent pointer equal to \<open>p\<close>: every node of \<open>t\<close> is a live cell with the colour,
  key and value of \<open>t\<close>, its child pointers are the roots of its subtrees, and each child's
  parent pointer leads back to it.
\<close>

datatype ('k, 'v) tree = Leaf | Node "('k, 'v) tree" addr Color 'k 'v "('k, 'v) tree"

fun root_ptr :: "('k, 'v) tree \<Rightarrow> addr option" where
  "root_ptr Leaf = None"
| "root_ptr (Node l a c k v r) = Some a"

fun rep :: "('k, 'v) heap \<Rightarrow> addr \<Rightarrow> ('k, 'v) tree \<Rightarrow> bool" where
  "rep h p Leaf = True"
| "rep h p (Node l a c k v r) =
     (h a = Some \<lparr>color = c, data = Some (k, v), left = root_ptr l, right = root_ptr r,
                 parent = Some p\<rparr> \<and> rep h a l \<and> rep h a r)"

fun addrs :: "('k, 'v) tree \<Rightarrow> addr list" where
  "addrs Leaf = []"
| "addrs (Node l a c k v r) = addrs l @ a # addrs r"

fun entries :: "('k, 'v) tree \<Rightarrow> ('k \<times> 'v) list" where
  "entries Leaf = []"
| "entries (Node l a c k v r) = entries l @ (k, v) # entries r"

fun leftmost :: "('k, 'v) tree \<Rightarrow> addr \<Rightarrow> addr" where
  "leftmost Leaf d = d"
| "leftmost (Node l a c k v r) d = leftmost l a"

definition sentinel_ok :: "('k, 'v) heap \<Rightarrow> addr \<Rightarrow> addr option \<Rightarrow> bool" where
  "sentinel_ok h s root =
     (h s = Some \<lparr>color = RED, data = None, left = root, right = None, parent = None\<rparr>)"

definition wf_tree :: "('k, 'v) heap \<Rightarrow> addr \<Rightarrow> ('k, 'v) tree \<Rightarrow> bool" where
  "wf_tree h s t = (sentinel_ok h s (root_ptr t) \<and> rep h s t \<and> distinct (s # addrs t))"

definition map_inv :: "('k, 'v) state \<Rightarrow> addr \<Rightarrow> ('k, 'v) tree \<Rightarrow> bool" where
  "map_inv st this t =
     (case maps st this of None \<Rightarrow> False
      | Some m \<Rightarrow> (case sentinel m of None \<Rightarrow> False
          | Some s \<Rightarrow> len m = length (addrs t) \<and> wf_tree (heap st) s t
              \<and> (\<forall>a. brk st \<le> a \<longrightarrow> heap st a = None)))"

definition ex_tree :: "(nat, nat) tree" where
  "ex_tree = Node (Node Leaf 2 RED 1 10 Leaf) 1 BLACK 2 20 (Node Leaf 3 RED 3 30 Leaf)"

definition ex_state :: "(nat, nat) state" where
  "ex_state = \<lparr>heap = [0 \<mapsto> \<lparr>color = RED, data = None, left = Some 1, right = None, parent = None\<rparr>,
      1 \<mapsto> \<lparr>color = BLACK, data = Some (2, 20), left = Some 2, right = Some 3, parent = Some 0\<rparr>,
      2 \<mapsto> \<lparr>color = RED, data = Some (1, 10), left = None, right = None, parent = Some 1\<rparr>,
      3 \<mapsto> \<lparr>color = RED, data = Some (3, 30), left = None, right = None, parent = Some 1\<rparr>],
    brk = 4, maps = [0 \<mapsto> \<lparr>sentinel = Some 0, len = 3\<rparr>]\<rparr>"

text \<open>Two maps: the one at address 0 holds the key 1, the one at address 1 is empty.\<close>

definition ex_two :: "(nat, nat) state" where
  "ex_two = \<lparr>heap = [0 \<mapsto> \<lparr>color = RED, data = None, left = Some 1, right = None, parent = None\<rparr>,
      1 \<mapsto> \<lparr>color = BLACK, data = Some (1, 10), left = None, right = None, parent = Some 0\<rparr>,
      2 \<mapsto> \<lparr>color = RED, data = None, left = None, right = None, parent = None\<rparr>],
    brk = 3, maps = [0 \<mapsto> \<lparr>sentinel = Some 0, len = 1\<rparr>, 1 \<mapsto> \<lparr>sentinel = Some 2, len = 0\<rparr>]\<rparr>"

datatype ('k, 'v) frame = FL addr Color 'k 'v "('k, 'v) tree" | FR "('k, 'v) tree" addr Color 'k 'v

fun plug1 :: "('k, 'v) frame \<Rightarrow> ('k, 'v) tree \<Rightarrow> ('k, 'v) tree" where
  "plug1 (FL a c k v r) t = Node t a c k v r"
| "plug1 (FR l a c k v) t = Node l a c k v t"

fun plug :: "('k, 'v) frame list \<Rightarrow> ('k, 'v) tree \<Rightarrow> ('k, 'v) tree" where
  "plug [] t = t"
| "plug (f # C) t = plug C (plug1 f t)"

fun faddr :: "('k, 'v) frame \<Rightarrow> addr" where
  "faddr (FL a c k v r) = a"
| "faddr (FR l a c k v) = a"

fun cpar :: "addr \<Rightarrow> ('k, 'v) frame list \<Rightarrow> addr" where
  "cpar s [] = s"
| "cpar s (f # C) = faddr f"

fun cpre :: "('k, 'v) frame list \<Rightarrow> addr list" where
  "cpre [] = []"
| "cpre (FL a c k v r # C) = cpre C"
| "cpre (FR l a c k v # C) = cpre C @ addrs l @ [a]"

fun cpost :: "('k, 'v) frame list \<Rightarrow> addr list" where
  "cpost [] = []"
| "cpost (FL a c k v r # C) = a # addrs r @ cpost C"
| "cpost (FR l a c k v # C) = cpost C"

fun node_of :: "addr \<Rightarrow> ('k, 'v) tree \<Rightarrow> addr \<Rightarrow> ('k, 'v) RBTNode option" where
  "node_of p Leaf a = None"
| "node_of p (Node l x c k v r) a =
     (if a = x then Some \<lparr>color = c, data = Some (k, v), left = root_ptr l, right = root_ptr r,
                          parent = Some p\<rparr>
      else if a \<in> set (addrs l) then node_of x l a else node_of x r a)"

definition snode :: "addr option \<Rightarrow> ('k, 'v) RBTNode" where
  "snode x = \<lparr>color = RED, data = None, left = x, right = None, parent = None\<rparr>"

definition hp :: "('k, 'v) heap \<Rightarrow> addr \<Rightarrow> ('k, 'v) tree \<Rightarrow> ('k, 'v) heap" where
  "hp H s t = (\<lambda>a. if a = s then Some (snode (root_ptr t))
                   else (case node_of s t a of Some n \<Rightarrow> Some n | None \<Rightarrow> H a))"

fun fnode :: "('k, 'v) frame \<Rightarrow> addr option \<Rightarrow> addr \<Rightarrow> ('k, 'v) RBTNode" where
  "fnode (FL a c k v r) x p =
     \<lparr>color = c, data = Some (k, v), left = x, right = root_ptr r, parent = Some p\<rparr>"
| "fnode (FR l a c k v) x p =
     \<lparr>color = c, data = Some (k, v), left = root_ptr l, right = x, parent = Some p\<rparr>"

fun top_node :: "addr \<Rightarrow> ('k, 'v) frame list \<Rightarrow> addr option \<Rightarrow> ('k, 'v) RBTNode" where
  "top_node s [] x = snode x"
| "top_node s (f # C) x = fnode f x (cpar s C)"

fun cdir :: "('k, 'v) frame list \<Rightarrow> Direction" where
  "cdir [] = ROOT"
| "cdir (FL a c k v r # C) = LEFT"
| "cdir (FR l a c k v # C) = RIGHT"

definition reparent :: "('k, 'v) heap \<Rightarrow> addr option \<Rightarrow> addr option \<Rightarrow> ('k, 'v) heap" where
  "reparent h x p = (case x of None \<Rightarrow> h
     | Some a \<Rightarrow> (case h a of None \<Rightarrow> h | Some n \<Rightarrow> h(a \<mapsto> n\<lparr>parent := p\<rparr>)))"

fun col :: "('k, 'v) tree \<Rightarrow> Color" where
  "col Leaf = BLACK"
| "col (Node l a c k v r) = c"

fun paint :: "Color \<Rightarrow> ('k, 'v) tree \<Rightarrow> ('k, 'v) tree" where
  "paint c Leaf = Leaf"
| "paint c (Node l a c0 k v r) = Node l a c k v r"

fun rotl :: "('k, 'v) tree \<Rightarrow> ('k, 'v) tree" where
  "rotl (Node l n c k v (Node ml r cr kr vr rr)) = Node (Node l n c k v ml) r cr kr vr rr"
| "rotl t = t"

fun rotr :: "('k, 'v) tree \<Rightarrow> ('k, 'v) tree" where
  "rotr (Node (Node ll r cr kr vr ml) n c k v l) = Node ll r cr kr vr (Node ml n c k v l)"
| "rotr t = t"

fun apply_at :: "addr \<Rightarrow> (('k, 'v) tree \<Rightarrow> ('k, 'v) tree) \<Rightarrow> ('k, 'v) tree \<Rightarrow> ('k, 'v) tree" where
  "apply_at a g Leaf = Leaf"
| "apply_at a g (Node l x c k v r) =
     (if a = x then g (Node l x c k v r)
      else if a \<in> set (addrs l) then Node (apply_at a g l) x c k v r
      else Node l x c k v (apply_at a g r))"

fun fcol :: "('k, 'v) frame \<Rightarrow> Color" where
  "fcol (FL a c k v r) = c"
| "fcol (FR l a c k v) = c"

fun fsib :: "('k, 'v) frame \<Rightarrow> ('k, 'v) tree" where
  "fsib (FL a c k v r) = r"
| "fsib (FR l a c k v) = l"

fun ins_fix :: "('k, 'v) frame list \<Rightarrow> ('k, 'v) tree \<Rightarrow> ('k, 'v) tree option" where
  "ins_fix C Leaf = None"
| "ins_fix [] t = Some (paint BLACK t)"
| "ins_fix (FL p BLACK kp vp pr # C) t = Some (plug C (Node t p BLACK kp vp pr))"
| "ins_fix (FR pl p BLACK kp vp # C) t = Some (plug C (Node pl p BLACK kp vp t))"
| "ins_fix [f] t = None"
| "ins_fix (FL p RED kp vp pr # FL g cg kg vg (Node ul u RED ku vu ur) # C) t =
     ins_fix C (Node (Node t p BLACK kp vp pr) g RED kg vg (Node ul u BLACK ku vu ur))"
| "ins_fix (FR pl p RED kp vp # FL g cg kg vg (Node ul u RED ku vu ur) # C) t =
     ins_fix C (Node (Node pl p BLACK kp vp t) g RED kg vg (Node ul u BLACK ku vu ur))"
| "ins_fix (FL p RED kp vp pr # FR (Node ul u RED ku vu ur) g cg kg vg # C) t =
     ins_fix C (Node (Node ul u BLACK ku vu ur) g RED kg vg (Node t p BLACK kp vp pr))"
| "ins_fix (FR pl p RED kp vp # FR (Node ul u RED ku vu ur) g cg kg vg # C) t =
     ins_fix C (Node (Node ul u BLACK ku vu ur) g RED kg vg (Node pl p BLACK kp vp t))"
| "ins_fix (FL p RED kp vp pr # FL g cg kg vg u # C) t =
     Some (plug C (Node t p BLACK kp vp (Node pr g RED kg vg u)))"
| "ins_fix (FR pl p RED kp vp # FR u g cg kg vg # C) t =
     Some (plug C (Node (Node u g RED kg vg pl) p BLACK kp vp t))"
| "ins_fix (FR pl p RED kp vp # FL g cg kg vg u # C) (Node l n c k v r) =
     Some (plug C (Node (Node pl p RED kp vp l) n BLACK k v (Node r g RED kg vg u)))"
| "ins_fix (FL p RED kp vp pr # FR u g cg kg vg # C) (Node l n c k v r) =
     Some (plug C (Node (Node u g RED kg vg l) n BLACK k v (Node r p RED kp vp pr)))"

fun bh :: "('k, 'v) tree \<Rightarrow> nat" where
  "bh Leaf = 0"
| "bh (Node l a c k v r) = (if c = BLACK then Suc (bh l) else bh l)"

fun invh :: "('k, 'v) tree \<Rightarrow> bool" where
  "invh Leaf = True"
| "invh (Node l a c k v r) = (bh l = bh r \<and> invh l \<and> invh r)"

fun invc :: "('k, 'v) tree \<Rightarrow> bool" where
  "invc Leaf = True"
| "invc (Node l a c k v r) = ((c = RED \<longrightarrow> col l = BLACK \<and> col r = BLACK) \<and> invc l \<and> invc r)"

definition bst :: "('k \<Rightarrow> 'k \<Rightarrow> bool) \<Rightarrow> ('k, 'v) tree \<Rightarrow> bool" where
  "bst lt t = sorted_wrt lt (map fst (entries t))"

definition rbt :: "('k \<Rightarrow> 'k \<Rightarrow> bool) \<Rightarrow> ('k, 'v) tree \<Rightarrow> bool" where
  "rbt lt t = (bst lt t \<and> invc t \<and> invh t \<and> col t = BLACK)"

fun cpcol :: "('k, 'v) frame list \<Rightarrow> Color" where
  "cpcol [] = BLACK"
| "cpcol (f # C) = fcol f"

fun cinvc :: "('k, 'v) frame list \<Rightarrow> bool" where
  "cinvc [] = True"
| "cinvc (f # C) = (invc (fsib f) \<and> (fcol f = RED \<longrightarrow> col (fsib f) = BLACK \<and> cpcol C = BLACK)
     \<and> cinvc C)"

fun cinvh :: "('k, 'v) frame list \<Rightarrow> nat \<Rightarrow> bool" where
  "cinvh [] b = True"
| "cinvh (f # C) b = (invh (fsib f) \<and> bh (fsib f) = b
     \<and> cinvh C (if fcol f = BLACK then Suc b else b))"

fun croot :: "('k, 'v) frame list \<Rightarrow> Color \<Rightarrow> Color" where
  "croot [] c = c"
| "croot (f # C) c = croot C (fcol f)"

fun epre :: "('k, 'v) frame list \<Rightarrow> ('k \<times> 'v) list" where
  "epre [] = []"
| "epre (FL a c k v r # C) = epre C"
| "epre (FR l a c k v # C) = epre C @ entries l @ [(k, v)]"

fun epost :: "('k, 'v) frame list \<Rightarrow> ('k \<times> 'v) list" where
  "epost [] = []"
| "epost (FL a c k v r # C) = (k, v) # entries r @ epost C"
| "epost (FR l a c k v # C) = epost C"

fun cref :: "addr \<Rightarrow> ('k, 'v) frame list \<Rightarrow> ref" where
  "cref s [] = LeftOf (Some s)"
| "cref s (FL a c k v r # C) = LeftOf (Some a)"
| "cref s (FR l a c k v # C) = RightOf (Some a)"

fun ins_desc :: "('k \<Rightarrow> 'k \<Rightarrow> bool) \<Rightarrow> 'k \<Rightarrow> ('k, 'v) frame list \<Rightarrow> ('k, 'v) tree
    \<Rightarrow> ('k, 'v) frame list \<times> ('k, 'v) tree" where
  "ins_desc lt k C Leaf = (C, Leaf)"
| "ins_desc lt k C (Node l a c k' v' r) =
     (if equal_key lt k' k then (C, Node l a c k' v' r)
      else if lt k k' then ins_desc lt k (FL a c k' v' r # C) l
      else ins_desc lt k (FR l a c k' v' # C) r)"

fun nodes :: "('k, 'v) tree \<Rightarrow> (addr \<times> 'k \<times> 'v) list" where
  "nodes Leaf = []"
| "nodes (Node l a c k v r) = nodes l @ (a, k, v) # nodes r"

fun lookup_node :: "('k \<Rightarrow> 'k \<Rightarrow> bool) \<Rightarrow> 'k \<Rightarrow> ('k, 'v) tree \<Rightarrow> addr option" where
  "lookup_node lt k Leaf = None"
| "lookup_node lt k (Node l a c k' v' r) =
     (if equal_key lt k k' then Some a
      else if lt k k' then lookup_node lt k l else lookup_node lt k r)"

definition strict_weak_order :: "('k \<Rightarrow> 'k \<Rightarrow> bool) \<Rightarrow> bool" where
  "strict_weak_order lt =
     ((\<forall>x. \<not> lt x x) \<and> (\<forall>x y z. lt x y \<longrightarrow> lt y z \<longrightarrow> lt x z)
      \<and> (\<forall>x y z. equal_key lt x y \<longrightarrow> equal_key lt y z \<longrightarrow> equal_key lt x z))"

definition has_key :: "('k \<Rightarrow> 'k \<Rightarrow> bool) \<Rightarrow> ('k, 'v) tree \<Rightarrow> 'k \<Rightarrow> bool" where
  "has_key lt t x = (\<exists>e \<in> set (entries t). equal_key lt (fst e) x)"

fun rightmost :: "('k, 'v) tree \<Rightarrow> addr \<Rightarrow> addr" where
  "rightmost Leaf d = d"
| "rightmost (Node l a c k v r) d = rightmost r a"

fun first_left_anc :: "addr \<Rightarrow> ('k, 'v) frame list \<Rightarrow> addr" where
  "first_left_anc s [] = s"
| "first_left_anc s (FL a c k v r # C) = a"
| "first_left_anc s (FR l a c k v # C) = first_left_anc s C"

fun first_right_anc :: "addr \<Rightarrow> ('k, 'v) frame list \<Rightarrow> addr" where
  "first_right_anc s [] = s"
| "first_right_anc s (FL a c k v r # C) = first_right_anc s C"
| "first_right_anc s (FR l a c k v # C) = a"

definition successor :: "addr \<Rightarrow> ('k, 'v) frame list \<Rightarrow> ('k, 'v) tree \<Rightarrow> addr" where
  "successor s C r = (if r = Leaf then first_left_anc s C else leftmost r s)"

definition predecessor :: "addr \<Rightarrow> ('k, 'v) frame list \<Rightarrow> ('k, 'v) tree \<Rightarrow> addr" where
  "predecessor s C l = (if l = Leaf then first_right_anc s C else rightmost l s)"

definition positions :: "addr \<Rightarrow> addr \<Rightarrow> ('k, 'v) tree \<Rightarrow> iterator list" where
  "positions this s t = map (\<lambda>a. \<lparr>map_ptr = Some this, ptr = Some a\<rparr>) (addrs t @ [s])"

text \<open>
  The fix-up after the removal of a BLACK node, on zippers. \<open>nr_left\<close> and \<open>nr_right\<close> are
  the cases of \<open>maintainAfterRemove\<close> that end the fix-up when the sibling is BLACK (cases 2,
  4 and 5 of the source): from the parent frame they give the frames that replace it.
\<close>

fun nr_left :: "addr \<Rightarrow> Color \<Rightarrow> 'k \<Rightarrow> 'v \<Rightarrow> ('k, 'v) tree \<Rightarrow> ('k, 'v) frame list option" where
  "nr_left p cp kp vp (Node (Node cl c RED kc vc cr) s BLACK ks vs Leaf) =
     Some [FL p BLACK kp vp cl, FL c cp kc vc (Node cr s BLACK ks vs Leaf)]"
| "nr_left p cp kp vp (Node (Node cl c RED kc vc cr) s BLACK ks vs (Node dl d cd kd vd dr)) =
     Some [FL p BLACK kp vp cl, FL c cp kc vc (Node cr s BLACK ks vs (Node dl d cd kd vd dr))]"
| "nr_left p cp kp vp (Node sl s BLACK ks vs (Node dl d RED kd vd dr)) =
     Some [FL p BLACK kp vp sl, FL s cp ks vs (Node dl d BLACK kd vd dr)]"
| "nr_left p RED kp vp (Node sl s BLACK ks vs sr) = Some [FL p BLACK kp vp (Node sl s RED ks vs sr)]"
| "nr_left p cp kp vp S = None"

fun nr_right :: "addr \<Rightarrow> Color \<Rightarrow> 'k \<Rightarrow> 'v \<Rightarrow> ('k, 'v) tree \<Rightarrow> ('k, 'v) frame list option" where
  "nr_right p cp kp vp (Node Leaf s BLACK ks vs (Node cl c RED kc vc cr)) =
     Some [FR cr p BLACK kp vp, FR (Node Leaf s BLACK ks vs cl) c cp kc vc]"
| "nr_right p cp kp vp (Node (Node dl d cd kd vd dr) s BLACK ks vs (Node cl c RED kc vc cr)) =
     Some [FR cr p BLACK kp vp, FR (Node (Node dl d cd kd vd dr) s BLACK ks vs cl) c cp kc vc]"
| "nr_right p cp kp vp (Node (Node dl d RED kd vd dr) s BLACK ks vs sr) =
     Some [FR sr p BLACK kp vp, FR (Node dl d BLACK kd vd dr) s cp ks vs]"
| "nr_right p RED kp vp (Node sl s BLACK ks vs sr) = Some [FR (Node sl s RED ks vs sr) p BLACK kp vp]"
| "nr_right p cp kp vp S = None"

fun del_fix :: "('k, 'v) frame list \<Rightarrow> ('k, 'v) frame list option" where
  "del_fix [] = Some []"
| "del_fix (FL p cp kp vp (Node sl s RED ks vs sr) # C) =
     (if cp = BLACK \<and> sl \<noteq> Leaf \<and> col sl = BLACK \<and> sr \<noteq> Leaf \<and> col sr = BLACK
      then map_option (\<lambda>fs. fs @ FL s BLACK ks vs sr # C) (nr_left p RED kp vp sl)
      else None)"
| "del_fix (FR (Node sl s RED ks vs sr) p cp kp vp # C) =
     (if cp = BLACK \<and> sl \<noteq> Leaf \<and> col sl = BLACK \<and> sr \<noteq> Leaf \<and> col sr = BLACK
      then map_option (\<lambda>fs. fs @ FR sl s BLACK ks vs # C) (nr_right p RED kp vp sr)
      else None)"
| "del_fix (FL p BLACK kp vp (Node sl s BLACK ks vs sr) # C) =
     (if col sl = BLACK \<and> col sr = BLACK
      then map_option ((#) (FL p BLACK kp vp (Node sl s RED ks vs sr))) (del_fix C)
      else map_option (\<lambda>fs. fs @ C) (nr_left p BLACK kp vp (Node sl s BLACK ks vs sr)))"
| "del_fix (FR (Node sl s BLACK ks vs sr) p BLACK kp vp # C) =
     (if col sl = BLACK \<and> col sr = BLACK
      then map_option ((#) (FR (Node sl s RED ks vs sr) p BLACK kp vp)) (del_fix C)
      else map_option (\<lambda>fs. fs @ C) (nr_right p BLACK kp vp (Node sl s BLACK ks vs sr)))"
| "del_fix (FL p cp kp vp S # C) = map_option (\<lambda>fs. fs @ C) (nr_left p cp kp vp S)"
| "del_fix (FR S p cp kp vp # C) = map_option (\<lambda>fs. fs @ C) (nr_right p cp kp vp S)"


section \<open>Basic facts\<close>

declare maintainAfterInsert.simps [code] insert_rec.simps [code] find_rec.simps [code]
  maintainAfterRemove.simps [code] findSuccessor.simps [code] clear_rec.simps [code]
  copy_rec.simps [code] descend_left.simps [code] descend_right.simps [code]
  climb_right.simps [code] climb_left.simps [code]

lemma bnd_simps [simp]: "bnd (Inr x) f = f x" "bnd (Inl e) f = Inl e"
  by (simp_all add: bnd_def)

lemma bndo_simps [simp]: "bndo (Inr x) g = g x" "bndo (Inl e) g = Some (Inl e)"
  by (simp_all add: bndo_def)

lemma bndp_simps [simp]:
  "bndp (Some (Inr x)) g = g x" "bndp (Some (Inl e)) g = Some (Inl e)" "bndp None g = None"
  by (simp_all add: bndp_def)

lemma deref_Some [simp]: "h a = Some n \<Longrightarrow> deref h (Some a) = Inr n"
  by (simp add: deref_def)

lemmas getters = get_left_def get_right_def get_parent_def get_color_def get_data_def

lemma descend_left_rep:
  "rep h a l \<Longrightarrow> h a = Some n \<Longrightarrow> left n = root_ptr l
   \<Longrightarrow> descend_left h (Some a) = Some (Inr (Some (leftmost l a)))"
proof (induction l arbitrary: a n)
  case Leaf
  then show ?case by (subst descend_left.simps) (simp add: getters)
next
  case (Node l1 a1 c k v l2)
  from Node.prems have "descend_left h (Some a) = descend_left h (Some a1)"
    by (subst descend_left.simps) (simp add: getters)
  also from Node.prems have "\<dots> = Some (Inr (Some (leftmost l1 a1)))"
    by (intro Node.IH(1)) auto
  finally show ?case by simp
qed

lemma map_inv_ex: "map_inv ex_state 0 ex_tree"
  by (auto simp: map_inv_def ex_state_def ex_tree_def wf_tree_def sentinel_ok_def)

lemma addrs_plug: "addrs (plug C t) = cpre C @ addrs t @ cpost C"
  by (induction C arbitrary: t rule: cpre.induct) auto

lemma node_of_notin [simp]: "a \<notin> set (addrs t) \<Longrightarrow> node_of p t a = None"
  by (induction t arbitrary: p) auto

lemma node_of_None_iff [simp]: "node_of p t a = None \<longleftrightarrow> a \<notin> set (addrs t)"
  by (induction t arbitrary: p) auto

lemma node_of_plug:
  "distinct (addrs (plug C t)) \<Longrightarrow> a \<in> set (addrs t)
   \<Longrightarrow> node_of s (plug C t) a = node_of (cpar s C) t a"
proof (induction C arbitrary: t)
  case Nil
  then show ?case by simp
next
  case (Cons f C)
  from Cons.prems have "node_of s (plug C (plug1 f t)) a = node_of (cpar s C) (plug1 f t) a"
    by (intro Cons.IH) (cases f; auto)+
  also from Cons.prems have "\<dots> = node_of (faddr f) t a"
    by (cases f) (auto simp: addrs_plug)
  finally show ?case by simp
qed

lemma root_ptr_plug1 [simp]: "root_ptr (plug1 f t) = Some (faddr f)"
  by (cases f) auto

lemma root_ptr_plug: "C \<noteq> [] \<Longrightarrow> root_ptr (plug C t) = root_ptr (plug C t')"
proof (induction C arbitrary: t t')
  case Nil
  then show ?case by simp
next
  case (Cons f C)
  show ?case
  proof (cases "C = []")
    case True
    then show ?thesis by simp
  next
    case False
    then show ?thesis using Cons.IH [of "plug1 f t" "plug1 f t'"] by simp
  qed
qed

lemma node_of_plug_out:
  "distinct (addrs (plug C t)) \<Longrightarrow> distinct (addrs (plug C t')) \<Longrightarrow>
   a \<notin> set (addrs t) \<Longrightarrow> a \<notin> set (addrs t') \<Longrightarrow> a \<noteq> cpar s C
   \<Longrightarrow> node_of s (plug C t) a = node_of s (plug C t') a"
proof (induction C arbitrary: t t')
  case Nil
  then show ?case by simp
next
  case (Cons f C)
  show ?case
  proof (cases "a \<in> set (addrs (plug1 f t))")
    case True
    then have a': "a \<in> set (addrs (plug1 f t'))"
      using Cons.prems by (cases f) auto
    have "node_of s (plug C (plug1 f t)) a = node_of (cpar s C) (plug1 f t) a"
      using Cons.prems True by (intro node_of_plug) auto
    moreover have "node_of s (plug C (plug1 f t')) a = node_of (cpar s C) (plug1 f t') a"
      using Cons.prems a' by (intro node_of_plug) auto
    moreover have "node_of (cpar s C) (plug1 f t) a = node_of (cpar s C) (plug1 f t') a"
      using Cons.prems by (cases f) auto
    ultimately show ?thesis by simp
  next
    case False
    then have a': "a \<notin> set (addrs (plug1 f t'))"
      using Cons.prems by (cases f) auto
    show ?thesis
    proof (cases "a = cpar s C")
      case True
      show ?thesis
      proof (cases C)
        case Nil
        with True False a' Cons.prems show ?thesis by (cases f) auto
      next
        case (Cons g C')
        have in1: "a \<in> set (addrs (plug1 g (plug1 f t)))" "a \<in> set (addrs (plug1 g (plug1 f t')))"
          using True Cons by (cases g; simp)+
        have "node_of s (plug C' (plug1 g (plug1 f t))) a
              = node_of (cpar s C') (plug1 g (plug1 f t)) a"
          using Cons.prems Cons in1 by (intro node_of_plug) auto
        moreover have "node_of s (plug C' (plug1 g (plug1 f t'))) a
              = node_of (cpar s C') (plug1 g (plug1 f t')) a"
          using Cons.prems Cons in1 by (intro node_of_plug) auto
        moreover have "node_of (cpar s C') (plug1 g (plug1 f t)) a
              = node_of (cpar s C') (plug1 g (plug1 f t')) a"
          using True Cons by (cases g; cases f) auto
        ultimately show ?thesis using Cons by simp
      qed
    next
      case nt: False
      have "node_of s (plug C (plug1 f t)) a = node_of s (plug C (plug1 f t')) a"
        using Cons.prems False a' nt by (intro Cons.IH) auto
      then show ?thesis by simp
    qed
  qed
qed

lemma hp_in:
  "distinct (s # addrs (plug C t)) \<Longrightarrow> a \<in> set (addrs t)
   \<Longrightarrow> hp H s (plug C t) a = node_of (cpar s C) t a"
  using node_of_plug [of C t a s]
  by (auto simp: hp_def addrs_plug split: option.splits)

lemma hp_top:
  "distinct (s # addrs (plug C t)) \<Longrightarrow> hp H s (plug C t) (cpar s C) = Some (top_node s C (root_ptr t))"
proof (cases C)
  case Nil
  then show ?thesis by (simp add: hp_def)
next
  case (Cons f C')
  assume d: "distinct (s # addrs (plug C t))"
  have "hp H s (plug C' (plug1 f t)) (faddr f) = node_of (cpar s C') (plug1 f t) (faddr f)"
    using d Cons by (intro hp_in) (cases f; auto)+
  then show ?thesis using Cons by (cases f) auto
qed

lemma hp_out:
  "distinct (s # addrs (plug C t)) \<Longrightarrow> distinct (s # addrs (plug C t')) \<Longrightarrow>
   a \<notin> set (addrs t) \<Longrightarrow> a \<notin> set (addrs t') \<Longrightarrow> a \<noteq> cpar s C
   \<Longrightarrow> hp H s (plug C t) a = hp H s (plug C t') a"
  using node_of_plug_out [of C t t' a s] root_ptr_plug [of C t t']
  by (cases C) (auto simp: hp_def)

lemma reparent_apply:
  "reparent h x p a = (if x = Some a then map_option (\<lambda>n. n\<lparr>parent := p\<rparr>) (h a) else h a)"
  by (auto simp: reparent_def split: option.splits)

lemma set_parent_if_reparent:
  "(x \<noteq> None \<longrightarrow> h (the x) \<noteq> None) \<Longrightarrow> set_parent_if h x p = Inr (reparent h x p)"
  by (auto simp: set_parent_if_def set_parent_def upd_def reparent_def split: option.splits)

lemma maintainRelationship_reparent:
  assumes "h a = Some n"
    and "left n \<noteq> None \<longrightarrow> h (the (left n)) \<noteq> None"
    and "right n \<noteq> None \<longrightarrow> h (the (right n)) \<noteq> None"
    and "left n \<noteq> Some a"
  shows "maintainRelationship h (Some a) = Inr (reparent (reparent h (left n) (Some a)) (right n) (Some a))"
  using assms
  by (auto simp: maintainRelationship_def getters set_parent_def upd_def reparent_def
      split: option.splits)

lemma node_of_root:
  "root_ptr t = Some a \<Longrightarrow> \<exists>c k v l r. t = Node l a c k v r"
  by (cases t) auto

lemma node_of_reparent:
  "node_of p' t a = (if root_ptr t = Some a then map_option (\<lambda>n. n\<lparr>parent := Some p'\<rparr>) (node_of p t a)
                     else node_of p t a)"
  by (cases t) auto

lemma root_ptr_in: "root_ptr t = Some a \<Longrightarrow> a \<in> set (addrs t)"
  by (cases t) auto

lemma snode_sel [simp]:
  "color (snode x) = RED" "data (snode x) = None" "left (snode x) = x" "right (snode x) = None"
  "parent (snode x) = None"
  by (simp_all add: snode_def)

lemma fnode_sel [simp]:
  "parent (fnode f x p) = Some p"
  "color (fnode (FL a c k v r) x p) = c" "color (fnode (FR l a c k v) x p) = c"
  "data (fnode (FL a c k v r) x p) = Some (k, v)" "data (fnode (FR l a c k v) x p) = Some (k, v)"
  "left (fnode (FL a c k v r) x p) = x" "left (fnode (FR l a c k v) x p) = root_ptr l"
  "right (fnode (FL a c k v r) x p) = root_ptr r" "right (fnode (FR l a c k v) x p) = x"
  by (cases f; simp)+

declare fnode.simps [simp del]

lemma top_node_parent [simp]: "parent (top_node s C x) = (case C of [] \<Rightarrow> None | f # C' \<Rightarrow> Some (cpar s C'))"
  by (cases C; cases "hd C") (auto simp: snode_def)

lemma hp_focus:
  "distinct (s # addrs (plug C (Node l n c k v r))) \<Longrightarrow>
   hp H s (plug C (Node l n c k v r)) n =
     Some \<lparr>color = c, data = Some (k, v), left = root_ptr l, right = root_ptr r,
           parent = Some (cpar s C)\<rparr>"
  by (subst hp_in) auto

lemma isRoot_focus:
  assumes "distinct (s # addrs (plug C (Node l n c k v r)))"
  shows "isRoot (hp H s (plug C (Node l n c k v r))) (Some n) = Inr (C = [])"
  using hp_focus [OF assms, of H] hp_top [OF assms, of H]
  by (cases C) (auto simp: isRoot_def)

lemma direction_focus:
  assumes "distinct (s # addrs (plug C (Node l n c k v r)))"
  shows "direction (hp H s (plug C (Node l n c k v r))) (Some n) = Inr (cdir C)"
proof (cases C)
  case Nil
  then show ?thesis using isRoot_focus [OF assms, of H] by (simp add: direction_def)
next
  case (Cons f C')
  have "left (top_node s C (Some n)) = Some n \<longleftrightarrow> cdir C = LEFT"
    using assms Cons by (cases f) (auto simp: addrs_plug dest: root_ptr_in)
  moreover have "cdir C \<noteq> ROOT" "cdir C = LEFT \<or> cdir C = RIGHT" using Cons by (cases f; simp)+
  ultimately show ?thesis
    using Cons isRoot_focus [OF assms, of H] hp_focus [OF assms, of H] hp_top [OF assms, of H]
    by (auto simp: direction_def getters)
qed

lemma hp_replace:
  assumes d: "distinct (s # addrs (plug C t))" and d': "distinct (s # addrs (plug C t'))"
    and sub: "set (addrs t) \<subseteq> set (addrs t')"
    and "in": "\<And>a. a \<in> set (addrs t') \<Longrightarrow> h' a = node_of (cpar s C) t' a"
    and top: "h' (cpar s C) = Some (top_node s C (root_ptr t'))"
    and out: "\<And>a. a \<notin> set (addrs t') \<Longrightarrow> a \<noteq> cpar s C \<Longrightarrow> h' a = hp H s (plug C t) a"
  shows "h' = hp H s (plug C t')"
proof
  fix a
  consider "a \<in> set (addrs t')" | "a = cpar s C" | "a \<notin> set (addrs t')" "a \<noteq> cpar s C"
    by blast
  then show "h' a = hp H s (plug C t') a"
  proof cases
    case 1
    then show ?thesis using "in" hp_in [OF d', of a H] by simp
  next
    case 2
    then show ?thesis using top hp_top [OF d', of H] by simp
  next
    case 3
    then have "a \<notin> set (addrs t)" using sub by auto
    then show ?thesis using 3 out hp_out [OF d d', of a H] by simp
  qed
qed

lemma set_color_focus:
  assumes d: "distinct (s # addrs (plug C (Node l n c k v r)))"
  shows "set_color (hp H s (plug C (Node l n c k v r))) (Some n) c'
         = Inr (hp H s (plug C (Node l n c' k v r)))"
proof -
  let ?t = "Node l n c k v r" and ?t' = "Node l n c' k v r"
  let ?h = "hp H s (plug C ?t)"
  have d': "distinct (s # addrs (plug C ?t'))" using d by (simp add: addrs_plug)
  have ncp: "n \<noteq> cpar s C" using d by (cases C; cases "hd C") (auto simp: addrs_plug)
  let ?h' = "?h(n \<mapsto> \<lparr>color = c', data = Some (k, v), left = root_ptr l, right = root_ptr r,
           parent = Some (cpar s C)\<rparr>)"
  have "set_color ?h (Some n) c' = Inr ?h'"
    using hp_focus [OF d, of H] by (simp add: set_color_def upd_def)
  moreover have "?h' = hp H s (plug C ?t')"
  proof (rule hp_replace [OF d d'])
    show "set (addrs ?t) \<subseteq> set (addrs ?t')" by simp
    show "?h' a = node_of (cpar s C) ?t' a" if "a \<in> set (addrs ?t')" for a
      using that hp_in [OF d, of a H] by auto
    show "?h' (cpar s C) = Some (top_node s C (root_ptr ?t'))"
      using ncp hp_top [OF d, of H] by simp
    show "?h' a = ?h a" if "a \<notin> set (addrs ?t')" "a \<noteq> cpar s C" for a
      using that by auto
  qed
  ultimately show ?thesis by simp
qed

lemma cpar_notin:
  "distinct (s # addrs (plug C t)) \<Longrightarrow> cpar s C \<notin> set (addrs t)"
  by (cases C; cases "hd C") (auto simp: addrs_plug)

lemma top_node_slot:
  "cdir C = ROOT \<Longrightarrow> cpar s C = s \<and> (top_node s C x)\<lparr>left := y\<rparr> = top_node s C y"
  "cdir C = LEFT \<Longrightarrow> (top_node s C x)\<lparr>left := y\<rparr> = top_node s C y"
  "cdir C = RIGHT \<Longrightarrow> (top_node s C x)\<lparr>right := y\<rparr> = top_node s C y"
  by (cases C; cases "hd C"; simp add: snode_def fnode.simps)+

lemma reparent_live [simp]: "reparent h y q x = None \<longleftrightarrow> h x = None"
  by (auto simp: reparent_apply)

lemma reparent_None [simp]: "reparent h None q = h"
  by (simp add: reparent_def)

lemma set_parent_reparent: "h x \<noteq> None \<Longrightarrow> set_parent h (Some x) p = Inr (reparent h (Some x) p)"
  by (auto simp: set_parent_def upd_def reparent_def)

lemma maintainRelationship_reparent':
  assumes "h a = Some n"
    and "\<And>x. left n = Some x \<Longrightarrow> h x \<noteq> None"
    and "\<And>y. right n = Some y \<Longrightarrow> h y \<noteq> None"
  shows "maintainRelationship h (Some a) = Inr (reparent (reparent h (left n) (Some a)) (right n) (Some a))"
  using assms
  by (cases "left n"; cases "right n")
     (auto simp: maintainRelationship_def getters deref_def set_parent_reparent reparent_apply)

lemma rotateLeft_focus:
  assumes d: "distinct (s # addrs (plug C (Node l n c k v (Node ml r cr kr vr rr))))"
    and m: "sentinel m = Some s"
  shows "rotateLeft (hp H s (plug C (Node l n c k v (Node ml r cr kr vr rr)))) m (Some n)
         = Inr (hp H s (plug C (Node (Node l n c k v ml) r cr kr vr rr)))"
proof -
  let ?t = "Node l n c k v (Node ml r cr kr vr rr)" and ?t' = "Node (Node l n c k v ml) r cr kr vr rr"
  define h where "h = hp H s (plug C ?t)"
  define p where "p = cpar s C"
  have d': "distinct (s # addrs (plug C ?t'))" using d by (simp add: addrs_plug)
  have ne: "n \<noteq> r" "n \<notin> set (addrs l)" "n \<notin> set (addrs ml)" "n \<notin> set (addrs rr)"
    "r \<notin> set (addrs l)" "r \<notin> set (addrs ml)" "r \<notin> set (addrs rr)"
    "set (addrs l) \<inter> set (addrs ml) = {}" "set (addrs l) \<inter> set (addrs rr) = {}"
    "set (addrs ml) \<inter> set (addrs rr) = {}"
    using d by (auto simp: addrs_plug)
  have pn: "p \<noteq> n" "p \<noteq> r" "p \<notin> set (addrs l)" "p \<notin> set (addrs ml)" "p \<notin> set (addrs rr)"
    using cpar_notin [OF d] by (auto simp: p_def)
  let ?N = "\<lparr>color = c, data = Some (k, v), left = root_ptr l, right = Some r, parent = Some p\<rparr>"
  let ?R = "\<lparr>color = cr, data = Some (kr, vr), left = root_ptr ml, right = root_ptr rr, parent = Some n\<rparr>"
  have hn: "h n = Some ?N" using hp_in [OF d, of n H] by (simp add: h_def p_def)
  have hr: "h r = Some ?R" using hp_in [OF d, of r H] ne by (simp add: h_def p_def)
  have htop: "h p = Some (top_node s C (Some n))" using hp_top [OF d, of H] by (simp add: h_def p_def)
  have hl: "h a = node_of n l a" if "a \<in> set (addrs l)" for a
    using hp_in [OF d, of a H] that ne by (auto simp: h_def)
  have hml: "h a = node_of r ml a" if "a \<in> set (addrs ml)" for a
    using hp_in [OF d, of a H] that ne by (auto simp: h_def)
  have hrr: "h a = node_of r rr a" if "a \<in> set (addrs rr)" for a
    using hp_in [OF d, of a H] that ne by (auto simp: h_def)
  have live: "h a \<noteq> None" if "root_ptr l = Some a \<or> root_ptr ml = Some a \<or> root_ptr rr = Some a" for a
  proof -
    from that have "a \<in> set (addrs l) \<or> a \<in> set (addrs ml) \<or> a \<in> set (addrs rr)"
      by (auto dest: root_ptr_in)
    then show ?thesis by (elim disjE) (simp_all add: hl hml hrr)
  qed
  have rne: "root_ptr l \<noteq> Some n" "root_ptr l \<noteq> Some r" "root_ptr ml \<noteq> Some n" "root_ptr ml \<noteq> Some r"
    "root_ptr rr \<noteq> Some n" "root_ptr rr \<noteq> Some r" "root_ptr l \<noteq> Some p" "root_ptr ml \<noteq> Some p"
    "root_ptr rr \<noteq> Some p"
    using ne pn by (auto dest: root_ptr_in)
  have dir: "direction h (Some n) = Inr (cdir C)"
    using direction_focus [OF d, of H] by (simp add: h_def)
  define h1 where "h1 = h(n \<mapsto> ?N\<lparr>right := root_ptr ml\<rparr>)"
  define h2 where "h2 = h1(r \<mapsto> ?R\<lparr>left := Some n\<rparr>)"
  define h3 where "h3 = reparent (reparent h2 (root_ptr l) (Some n)) (root_ptr ml) (Some n)"
  define h4 where "h4 = reparent (reparent h3 (Some n) (Some r)) (root_ptr rr) (Some r)"
  define h5 where "h5 = h4(p \<mapsto> top_node s C (Some r))"
  define h6 where "h6 = h5(r \<mapsto> \<lparr>color = cr, data = Some (kr, vr), left = Some n, right = root_ptr rr, parent = Some p\<rparr>)"
  have s1: "set_right h (Some n) (root_ptr ml) = Inr h1"
    using hn by (simp add: set_right_def upd_def h1_def)
  have s2: "set_left h1 (Some r) (Some n) = Inr h2"
    using hr ne by (simp add: set_left_def upd_def h1_def h2_def)
  have s3: "maintainRelationship h2 (Some n) = Inr h3"
    using maintainRelationship_reparent' [of h2 n "?N\<lparr>right := root_ptr ml\<rparr>"] ne live
    by (auto simp: h3_def h2_def h1_def)
  have h3r: "h3 r = Some (?R\<lparr>left := Some n\<rparr>)"
    using rne by (simp add: h3_def reparent_apply h2_def)
  have h3n: "h3 n \<noteq> None"
    using rne ne by (simp add: h3_def reparent_apply h2_def h1_def)
  have h3rr: "h3 y \<noteq> None" if "root_ptr rr = Some y" for y
    using that live [of y] by (auto simp: h3_def reparent_apply h2_def h1_def)
  have s4: "maintainRelationship h3 (Some r) = Inr h4"
    using maintainRelationship_reparent' [of h3 r "?R\<lparr>left := Some n\<rparr>"] h3r h3n h3rr
    by (auto simp: h4_def)
  have h4p: "h4 p = Some (top_node s C (Some n))"
    using rne pn htop by (simp add: h4_def h3_def reparent_apply h2_def h1_def)
  have s5: "(case cdir C of ROOT \<Rightarrow> set_left h4 (sentinel m) (Some r)
           | LEFT \<Rightarrow> set_left h4 (Some p) (Some r)
           | RIGHT \<Rightarrow> set_right h4 (Some p) (Some r)) = Inr h5"
    using h4p m top_node_slot [where C = C and s = s and x = "Some n" and y = "Some r"]
    by (cases "cdir C") (auto simp: set_left_def set_right_def upd_def h5_def p_def)
  have h5r: "h5 r = Some (?R\<lparr>left := Some n\<rparr>)"
    using rne pn h3r by (simp add: h5_def h4_def reparent_apply)
  have s6: "set_parent h5 (Some r) (Some p) = Inr h6"
    using h5r by (simp add: set_parent_def upd_def h6_def)
  have "rotateLeft h m (Some n) = Inr h6"
    using hn hr dir by (simp add: rotateLeft_def getters s1 s2 s3 s4 s5 s6)
  moreover have "h6 = hp H s (plug C ?t')"
  proof (rule hp_replace [OF d d'])
    show "set (addrs ?t) \<subseteq> set (addrs ?t')" by auto
    show "h6 (cpar s C) = Some (top_node s C (root_ptr ?t'))"
      using pn by (simp add: h6_def h5_def p_def)
    show "h6 a = hp H s (plug C ?t) a" if "a \<notin> set (addrs ?t')" "a \<noteq> cpar s C" for a
      using that
      by (auto simp: h6_def h5_def h4_def h3_def h2_def h1_def reparent_apply p_def h_def
          dest: root_ptr_in)
    show "h6 a = node_of (cpar s C) ?t' a" if mem: "a \<in> set (addrs ?t')" for a
    proof -
      consider "a = r" | "a = n" | "a \<in> set (addrs l)" | "a \<in> set (addrs ml)" | "a \<in> set (addrs rr)"
        using mem by auto
      then show ?thesis
      proof cases
        case 1
        then show ?thesis by (simp add: h6_def p_def)
      next
        case 2
        then show ?thesis using ne pn rne
          by (simp add: h6_def h5_def h4_def h3_def h2_def h1_def reparent_apply p_def)
      next
        case 3
        then have "a \<noteq> r" "a \<noteq> n" "a \<noteq> p" "a \<notin> set (addrs ml)" "a \<notin> set (addrs rr)"
          using ne pn by auto
        then show ?thesis using 3 hl [of a] node_of_reparent [of n l a n]
          by (auto simp: h6_def h5_def h4_def h3_def h2_def h1_def reparent_apply dest: root_ptr_in)
      next
        case 4
        then have "a \<noteq> r" "a \<noteq> n" "a \<noteq> p" "a \<notin> set (addrs l)" "a \<notin> set (addrs rr)"
          using ne pn by auto
        then show ?thesis using 4 hml [of a] node_of_reparent [of n ml a r]
          by (auto simp: h6_def h5_def h4_def h3_def h2_def h1_def reparent_apply dest: root_ptr_in)
      next
        case 5
        then have "a \<noteq> r" "a \<noteq> n" "a \<noteq> p" "a \<notin> set (addrs l)" "a \<notin> set (addrs ml)"
          using ne pn by auto
        then show ?thesis using 5 hrr [of a] node_of_reparent [of r rr a r]
          by (auto simp: h6_def h5_def h4_def h3_def h2_def h1_def reparent_apply dest: root_ptr_in)
      qed
    qed
  qed
  ultimately show ?thesis by (simp add: h_def)
qed

lemma rotateRight_focus:
  assumes d: "distinct (s # addrs (plug C (Node (Node ll r cr kr vr ml) n c k v l)))"
    and m: "sentinel m = Some s"
  shows "rotateRight (hp H s (plug C (Node (Node ll r cr kr vr ml) n c k v l))) m (Some n)
         = Inr (hp H s (plug C (Node ll r cr kr vr (Node ml n c k v l))))"
proof -
  let ?t = "Node (Node ll r cr kr vr ml) n c k v l" and ?t' = "Node ll r cr kr vr (Node ml n c k v l)"
  define h where "h = hp H s (plug C ?t)"
  define p where "p = cpar s C"
  have d': "distinct (s # addrs (plug C ?t'))" using d by (simp add: addrs_plug)
  have ne: "n \<noteq> r" "n \<notin> set (addrs l)" "n \<notin> set (addrs ml)" "n \<notin> set (addrs ll)"
    "r \<notin> set (addrs l)" "r \<notin> set (addrs ml)" "r \<notin> set (addrs ll)"
    "set (addrs l) \<inter> set (addrs ml) = {}" "set (addrs l) \<inter> set (addrs ll) = {}"
    "set (addrs ml) \<inter> set (addrs ll) = {}"
    using d by (auto simp: addrs_plug)
  have pn: "p \<noteq> n" "p \<noteq> r" "p \<notin> set (addrs l)" "p \<notin> set (addrs ml)" "p \<notin> set (addrs ll)"
    using cpar_notin [OF d] by (auto simp: p_def)
  let ?N = "\<lparr>color = c, data = Some (k, v), left = Some r, right = root_ptr l, parent = Some p\<rparr>"
  let ?R = "\<lparr>color = cr, data = Some (kr, vr), left = root_ptr ll, right = root_ptr ml, parent = Some n\<rparr>"
  have hn: "h n = Some ?N" using hp_in [OF d, of n H] by (simp add: h_def p_def)
  have hr: "h r = Some ?R" using hp_in [OF d, of r H] ne by (simp add: h_def p_def)
  have htop: "h p = Some (top_node s C (Some n))" using hp_top [OF d, of H] by (simp add: h_def p_def)
  have hl: "h a = node_of n l a" if "a \<in> set (addrs l)" for a
    using hp_in [OF d, of a H] that ne by (auto simp: h_def)
  have hml: "h a = node_of r ml a" if "a \<in> set (addrs ml)" for a
    using hp_in [OF d, of a H] that ne by (auto simp: h_def)
  have hll: "h a = node_of r ll a" if "a \<in> set (addrs ll)" for a
    using hp_in [OF d, of a H] that ne by (auto simp: h_def)
  have live: "h a \<noteq> None" if "root_ptr l = Some a \<or> root_ptr ml = Some a \<or> root_ptr ll = Some a" for a
  proof -
    from that have "a \<in> set (addrs l) \<or> a \<in> set (addrs ml) \<or> a \<in> set (addrs ll)"
      by (auto dest: root_ptr_in)
    then show ?thesis by (elim disjE) (simp_all add: hl hml hll)
  qed
  have rne: "root_ptr l \<noteq> Some n" "root_ptr l \<noteq> Some r" "root_ptr ml \<noteq> Some n" "root_ptr ml \<noteq> Some r"
    "root_ptr ll \<noteq> Some n" "root_ptr ll \<noteq> Some r" "root_ptr l \<noteq> Some p" "root_ptr ml \<noteq> Some p"
    "root_ptr ll \<noteq> Some p"
    using ne pn by (auto dest: root_ptr_in)
  have dir: "direction h (Some n) = Inr (cdir C)"
    using direction_focus [OF d, of H] by (simp add: h_def)
  define h1 where "h1 = h(n \<mapsto> ?N\<lparr>left := root_ptr ml\<rparr>)"
  define h2 where "h2 = h1(r \<mapsto> ?R\<lparr>right := Some n\<rparr>)"
  define h3 where "h3 = reparent (reparent h2 (root_ptr ml) (Some n)) (root_ptr l) (Some n)"
  define h4 where "h4 = reparent (reparent h3 (root_ptr ll) (Some r)) (Some n) (Some r)"
  define h5 where "h5 = h4(p \<mapsto> top_node s C (Some r))"
  define h6 where "h6 = h5(r \<mapsto> \<lparr>color = cr, data = Some (kr, vr), left = root_ptr ll, right = Some n, parent = Some p\<rparr>)"
  have s1: "set_left h (Some n) (root_ptr ml) = Inr h1"
    using hn by (simp add: set_left_def upd_def h1_def)
  have s2: "set_right h1 (Some r) (Some n) = Inr h2"
    using hr ne by (simp add: set_right_def upd_def h1_def h2_def)
  have s3: "maintainRelationship h2 (Some n) = Inr h3"
    using maintainRelationship_reparent' [of h2 n "?N\<lparr>left := root_ptr ml\<rparr>"] ne live
    by (auto simp: h3_def h2_def h1_def)
  have h3r: "h3 r = Some (?R\<lparr>right := Some n\<rparr>)"
    using rne by (simp add: h3_def reparent_apply h2_def)
  have h3n: "h3 n \<noteq> None"
    using rne ne by (simp add: h3_def reparent_apply h2_def h1_def)
  have h3rr: "h3 y \<noteq> None" if "root_ptr ll = Some y" for y
    using that live [of y] by (auto simp: h3_def reparent_apply h2_def h1_def)
  have s4: "maintainRelationship h3 (Some r) = Inr h4"
    using maintainRelationship_reparent' [of h3 r "?R\<lparr>right := Some n\<rparr>"] h3r h3n h3rr
    by (auto simp: h4_def)
  have h4p: "h4 p = Some (top_node s C (Some n))"
    using rne pn htop by (simp add: h4_def h3_def reparent_apply h2_def h1_def)
  have s5: "(case cdir C of ROOT \<Rightarrow> set_left h4 (sentinel m) (Some r)
           | LEFT \<Rightarrow> set_left h4 (Some p) (Some r)
           | RIGHT \<Rightarrow> set_right h4 (Some p) (Some r)) = Inr h5"
    using h4p m top_node_slot [where C = C and s = s and x = "Some n" and y = "Some r"]
    by (cases "cdir C") (auto simp: set_left_def set_right_def upd_def h5_def p_def)
  have h5r: "h5 r = Some (?R\<lparr>right := Some n\<rparr>)"
    using rne pn h3r by (simp add: h5_def h4_def reparent_apply)
  have s6: "set_parent h5 (Some r) (Some p) = Inr h6"
    using h5r by (simp add: set_parent_def upd_def h6_def)
  have "rotateRight h m (Some n) = Inr h6"
    using hn hr dir by (simp add: rotateRight_def getters s1 s2 s3 s4 s5 s6)
  moreover have "h6 = hp H s (plug C ?t')"
  proof (rule hp_replace [OF d d'])
    show "set (addrs ?t) \<subseteq> set (addrs ?t')" by auto
    show "h6 (cpar s C) = Some (top_node s C (root_ptr ?t'))"
      using pn by (simp add: h6_def h5_def p_def)
    show "h6 a = hp H s (plug C ?t) a" if "a \<notin> set (addrs ?t')" "a \<noteq> cpar s C" for a
      using that
      by (auto simp: h6_def h5_def h4_def h3_def h2_def h1_def reparent_apply p_def h_def
          dest: root_ptr_in)
    show "h6 a = node_of (cpar s C) ?t' a" if mem: "a \<in> set (addrs ?t')" for a
    proof -
      consider "a = r" | "a = n" | "a \<in> set (addrs l)" | "a \<in> set (addrs ml)" | "a \<in> set (addrs ll)"
        using mem by auto
      then show ?thesis
      proof cases
        case 1
        then show ?thesis by (simp add: h6_def p_def)
      next
        case 2
        then show ?thesis using ne pn rne
          by (simp add: h6_def h5_def h4_def h3_def h2_def h1_def reparent_apply p_def)
      next
        case 3
        then have "a \<noteq> r" "a \<noteq> n" "a \<noteq> p" "a \<notin> set (addrs ml)" "a \<notin> set (addrs ll)"
          using ne pn by auto
        then show ?thesis using 3 hl [of a] node_of_reparent [of n l a n]
          by (auto simp: h6_def h5_def h4_def h3_def h2_def h1_def reparent_apply dest: root_ptr_in)
      next
        case 4
        then have "a \<noteq> r" "a \<noteq> n" "a \<noteq> p" "a \<notin> set (addrs l)" "a \<notin> set (addrs ll)"
          using ne pn by auto
        then show ?thesis using 4 hml [of a] node_of_reparent [of n ml a r]
          by (auto simp: h6_def h5_def h4_def h3_def h2_def h1_def reparent_apply dest: root_ptr_in)
      next
        case 5
        then have "a \<noteq> r" "a \<noteq> n" "a \<noteq> p" "a \<notin> set (addrs l)" "a \<notin> set (addrs ml)"
          using ne pn by auto
        then show ?thesis using 5 hll [of a] node_of_reparent [of r ll a r]
          by (auto simp: h6_def h5_def h4_def h3_def h2_def h1_def reparent_apply dest: root_ptr_in)
      qed
    qed
  qed
  ultimately show ?thesis by (simp add: h_def)
qed

lemma plug_append: "plug (C1 @ C2) t = plug C2 (plug C1 t)"
  by (induction C1 arbitrary: t) auto

lemma zoom:
  "a \<in> set (addrs T) \<Longrightarrow> \<exists>C l c k v r. T = plug C (Node l a c k v r)"
proof (induction T)
  case Leaf
  then show ?case by simp
next
  case (Node L x c k v R)
  consider "a = x" | "a \<in> set (addrs L)" | "a \<in> set (addrs R)"
    using Node.prems by auto
  then show ?case
  proof cases
    case 1
    then have "Node L x c k v R = plug [] (Node L a c k v R)" by simp
    then show ?thesis by blast
  next
    case 2
    then obtain C l' c' k' v' r' where "L = plug C (Node l' a c' k' v' r')"
      using Node.IH(1) by blast
    then have "Node L x c k v R = plug (C @ [FL x c k v R]) (Node l' a c' k' v' r')"
      by (simp add: plug_append)
    then show ?thesis by blast
  next
    case 3
    then obtain C l' c' k' v' r' where "R = plug C (Node l' a c' k' v' r')"
      using Node.IH(2) by blast
    then have "Node L x c k v R = plug (C @ [FR L x c k v]) (Node l' a c' k' v' r')"
      by (simp add: plug_append)
    then show ?thesis by blast
  qed
qed

lemma apply_at_plug:
  "distinct (addrs (plug C t)) \<Longrightarrow> a \<in> set (addrs t) \<Longrightarrow> apply_at a g (plug C t) = plug C (apply_at a g t)"
proof (induction C arbitrary: t)
  case Nil
  then show ?case by simp
next
  case (Cons f C)
  have "apply_at a g (plug C (plug1 f t)) = plug C (apply_at a g (plug1 f t))"
    using Cons.prems by (intro Cons.IH) (cases f; auto)+
  moreover have "apply_at a g (plug1 f t) = plug1 f (apply_at a g t)"
    using Cons.prems by (cases f) (auto simp: addrs_plug)
  ultimately show ?case by simp
qed

lemma hp_node: "a \<noteq> s \<Longrightarrow> a \<in> set (addrs T) \<Longrightarrow> hp H s T a = node_of s T a"
  by (auto simp: hp_def split: option.splits)

lemma hp_sentinel [simp]: "hp H s T s = Some (snode (root_ptr T))"
  by (simp add: hp_def)

lemma set_color_at:
  assumes d: "distinct (s # addrs T)" and a: "a \<in> set (addrs T)"
  shows "set_color (hp H s T) (Some a) c' = Inr (hp H s (apply_at a (paint c') T))"
proof -
  from zoom [OF a] obtain C l c k v r where T: "T = plug C (Node l a c k v r)" by blast
  have "apply_at a (paint c') T = plug C (Node l a c' k v r)"
    using d unfolding T by (subst apply_at_plug) auto
  then show ?thesis using set_color_focus [of s C l a c k v r H c'] d unfolding T by simp
qed

lemma rotateLeft_at:
  assumes d: "distinct (s # addrs T)" and a: "a \<in> set (addrs T)" and m: "sentinel m = Some s"
    and r: "right (the (node_of s T a)) \<noteq> None"
  shows "rotateLeft (hp H s T) m (Some a) = Inr (hp H s (apply_at a rotl T))"
proof -
  from zoom [OF a] obtain C l c k v r where T: "T = plug C (Node l a c k v r)" by blast
  have "node_of s T a = node_of (cpar s C) (Node l a c k v r) a"
    using d unfolding T by (intro node_of_plug) auto
  with r obtain ml x cr kr vr rr where r': "r = Node ml x cr kr vr rr"
    by (cases r) auto
  have "apply_at a rotl T = plug C (rotl (Node l a c k v r))"
    using d unfolding T by (subst apply_at_plug) auto
  then show ?thesis using rotateLeft_focus [of s C l a c k v ml x cr kr vr rr m H] d m
    unfolding T r' by simp
qed

lemma rotateRight_at:
  assumes d: "distinct (s # addrs T)" and a: "a \<in> set (addrs T)" and m: "sentinel m = Some s"
    and r: "left (the (node_of s T a)) \<noteq> None"
  shows "rotateRight (hp H s T) m (Some a) = Inr (hp H s (apply_at a rotr T))"
proof -
  from zoom [OF a] obtain C l c k v r where T: "T = plug C (Node l a c k v r)" by blast
  have "node_of s T a = node_of (cpar s C) (Node l a c k v r) a"
    using d unfolding T by (intro node_of_plug) auto
  with r obtain ll x cr kr vr ml where l': "l = Node ll x cr kr vr ml"
    by (cases l) auto
  have "apply_at a rotr T = plug C (rotr (Node l a c k v r))"
    using d unfolding T by (subst apply_at_plug) auto
  then show ?thesis using rotateRight_focus [of s C ll x cr kr vr ml a c k v r m H] d m
    unfolding T l' by simp
qed

lemma root_ptr_neq [simp]:
  "a \<notin> set (addrs t) \<Longrightarrow> (root_ptr t = Some a) = False"
  "a \<notin> set (addrs t) \<Longrightarrow> (Some a = root_ptr t) = False"
  by (cases t; auto)+

lemmas addr_eq = eq_commute [where 'a = nat]

lemmas hsimps = addr_eq getters isRoot_def isRed_def isBlack_def isLeaf_def direction_def sibling_def
  hasSibling_def uncle_def hasUncle_def grandParent_def deref_def hp_node node_of_plug
  apply_at_plug addrs_plug set_color_at rotateLeft_at rotateRight_at

lemma addrs_paint [simp]: "addrs (paint c t) = addrs t"
  by (cases t) auto

lemma root_ptr_paint [simp]: "root_ptr (paint c t) = root_ptr t"
  by (cases t) auto

lemma maintainAfterInsert_refine:
  "ins_fix C t \<noteq> None \<Longrightarrow> distinct (s # addrs (plug C t)) \<Longrightarrow> sentinel m = Some s \<Longrightarrow>
   maintainAfterInsert (hp H s (plug C t)) m (root_ptr t) = Some (Inr (hp H s (the (ins_fix C t))))"
  apply (induction C t rule: ins_fix.induct;
         subst maintainAfterInsert.simps; simp add: hsimps maintainAfterInsert_rotate_def)
  done

lemma Color_neq [simp]:
  "(c \<noteq> RED) = (c = BLACK)" "(c \<noteq> BLACK) = (c = RED)"
  "(RED \<noteq> c) = (c = BLACK)" "(BLACK \<noteq> c) = (c = RED)"
  by (cases c; simp)+

lemma col_plug1 [simp]: "col (plug1 f t) = fcol f"
  by (cases f) auto

lemma invc_plug: "invc (plug C t) \<longleftrightarrow> invc t \<and> cinvc C \<and> (col t = RED \<longrightarrow> cpcol C = BLACK)"
proof (induction C arbitrary: t)
  case Nil
  then show ?case by simp
next
  case (Cons f C)
  show ?case unfolding plug.simps Cons.IH by (cases f) auto
qed

lemma invh_plug: "invh (plug C t) \<longleftrightarrow> invh t \<and> cinvh C (bh t)"
proof (induction C arbitrary: t)
  case Nil
  then show ?case by simp
next
  case (Cons f C)
  show ?case unfolding plug.simps Cons.IH by (cases f) auto
qed

lemma col_plug: "col (plug C t) = croot C (col t)"
  by (induction C arbitrary: t) auto

lemma entries_plug_cong: "entries t = entries t' \<Longrightarrow> entries (plug C t) = entries (plug C t')"
proof (induction C arbitrary: t t')
  case Nil
  then show ?case by simp
next
  case (Cons f C)
  then show ?case by (cases f) auto
qed

lemma addrs_plug_cong: "addrs t = addrs t' \<Longrightarrow> addrs (plug C t) = addrs (plug C t')"
  by (simp add: addrs_plug)

lemma ins_fix_correct:
  "col t = RED \<Longrightarrow> invc t \<Longrightarrow> invh t \<Longrightarrow> cinvc C \<Longrightarrow> cinvh C (bh t) \<Longrightarrow> croot C BLACK = BLACK \<Longrightarrow>
   \<exists>T'. ins_fix C t = Some T' \<and> invc T' \<and> invh T' \<and> col T' = BLACK
        \<and> entries T' = entries (plug C t) \<and> addrs T' = addrs (plug C t)"
proof (induction C t rule: ins_fix.induct)
qed (auto simp: invc_plug invh_plug col_plug addrs_plug intro!: entries_plug_cong)

lemma entries_plug: "entries (plug C t) = epre C @ entries t @ epost C"
  by (induction C arbitrary: t rule: epre.induct) auto

lemma ins_desc_plug: "ins_desc lt k C t = (C', t') \<Longrightarrow> plug C' t' = plug C t"
  by (induction t arbitrary: C) (auto split: if_splits)

lemma ins_desc_found:
  "ins_desc lt k C t = (C', Node l a c k' v' r) \<Longrightarrow> equal_key lt k' k"
  by (induction t arbitrary: C) (auto split: if_splits)

lemma ins_desc_bounds:
  assumes "transp lt" "bst lt (plug C t)"
    "\<forall>x \<in> set (epre C). lt (fst x) k" "\<forall>y \<in> set (epost C). lt k (fst y)"
    "ins_desc lt k C t = (C', t')"
  shows "(\<forall>x \<in> set (epre C'). lt (fst x) k) \<and> (\<forall>y \<in> set (epost C'). lt k (fst y))"
  using assms(2-)
proof (induction t arbitrary: C)
  case Leaf
  then show ?case by simp
next
  case (Node l a c k' v' r)
  show ?case
  proof (cases "equal_key lt k' k")
    case True
    with Node.prems show ?thesis by simp
  next
    case ne: False
    show ?thesis
    proof (cases "lt k k'")
      case True
      have "\<forall>y \<in> set (entries r). lt k' (fst y)"
        using Node.prems(1) by (auto simp: bst_def entries_plug sorted_wrt_append)
      with True assms(1) have "\<forall>y \<in> set (entries r). lt k (fst y)"
        by (meson transpD)
      with Node.prems True ne show ?thesis
        by (intro Node.IH(1) [of "FL a c k' v' r # C"]) auto
    next
      case False
      with ne have gt: "lt k' k" by (auto simp: equal_key_def)
      have "\<forall>x \<in> set (entries l). lt (fst x) k'"
        using Node.prems(1) by (auto simp: bst_def entries_plug sorted_wrt_append)
      with gt assms(1) have "\<forall>x \<in> set (entries l). lt (fst x) k"
        by (meson transpD)
      with Node.prems False ne gt show ?thesis
        by (intro Node.IH(2) [of "FR l a c k' v' # C"]) auto
    qed
  qed
qed

lemma get_ref_cref:
  "distinct (s # addrs (plug C t)) \<Longrightarrow> get_ref (hp H s (plug C t)) (cref s C) = Inr (root_ptr t)"
  using hp_top [of s C t H]
  by (cases C; cases "hd C") (auto simp: get_ref_def getters)

lemma cpar_cases: "cpar s C = s \<or> cpar s C \<in> set (cpre C) \<or> cpar s C \<in> set (cpost C)"
  by (cases C; cases "hd C") auto

lemma set_ref_cref:
  assumes d: "distinct (s # addrs (plug C Leaf))" and b: "b \<notin> set (s # addrs (plug C Leaf))"
  shows "set_ref ((hp H s (plug C Leaf))(b \<mapsto> \<lparr>color = RED, data = Some (k, v), left = None,
            right = None, parent = Some (cpar s C)\<rparr>)) (cref s C) (Some b)
         = Inr (hp H s (plug C (Node Leaf b RED k v Leaf)))"
proof -
  let ?rec = "\<lparr>color = RED, data = Some (k, v), left = None, right = None, parent = Some (cpar s C)\<rparr>"
  let ?h1 = "(hp H s (plug C Leaf))(b \<mapsto> ?rec)"
  let ?h2 = "?h1(cpar s C \<mapsto> top_node s C (Some b))"
  have bp: "b \<noteq> cpar s C" using b cpar_cases [of s C] by (auto simp: addrs_plug)
  have d': "distinct (s # addrs (plug C (Node Leaf b RED k v Leaf)))"
    using d b by (auto simp: addrs_plug)
  have top: "?h1 (cpar s C) = Some (top_node s C None)"
    using hp_top [OF d, of H] bp by simp
  have "set_ref ?h1 (cref s C) (Some b) = Inr ?h2"
    using top
    by (cases C; cases "hd C")
       (auto simp: set_ref_def set_left_def set_right_def upd_def snode_def fnode.simps)
  moreover have "?h2 = hp H s (plug C (Node Leaf b RED k v Leaf))"
  proof (rule hp_replace [OF d d'])
    show "set (addrs Leaf) \<subseteq> set (addrs (Node Leaf b RED k v Leaf))" by simp
    show "?h2 a = node_of (cpar s C) (Node Leaf b RED k v Leaf) a"
      if "a \<in> set (addrs (Node Leaf b RED k v Leaf))" for a
      using that bp by auto
    show "?h2 (cpar s C) = Some (top_node s C (root_ptr (Node Leaf b RED k v Leaf)))"
      by simp
    show "?h2 a = hp H s (plug C Leaf) a"
      if "a \<notin> set (addrs (Node Leaf b RED k v Leaf))" "a \<noteq> cpar s C" for a
      using that by auto
  qed
  ultimately show ?thesis by simp
qed

lemma insert_rec_refine:
  "distinct (s # addrs (plug C t)) \<Longrightarrow> b \<notin> set (s # addrs (plug C t)) \<Longrightarrow>
   insert_rec lt (hp H s (plug C t)) b (k, v) (cref s C) (Some (cpar s C)) =
     (case ins_desc lt k C t of
        (C', Leaf) \<Rightarrow> Some (Inr ((hp H s (plug C' (Node Leaf b RED k v Leaf)), Suc b), (Some b, True)))
      | (C', Node l a c k' v' r) \<Rightarrow> Some (Inr ((hp H s (plug C t), b), (Some a, False))))"
proof (induction t arbitrary: C)
  case Leaf
  then show ?case
    by (subst insert_rec.simps) (simp add: get_ref_cref new_node_def set_ref_cref)
next
  case (Node l a c k' v' r)
  have gd: "get_data (hp H s (plug C (Node l a c k' v' r))) (Some a) = Inr (k', v')"
    using Node.prems(1) hp_focus [of s C l a c k' v' r H] by (simp add: getters)
  have L: "insert_rec lt (hp H s (plug (FL a c k' v' r # C) l)) b (k, v)
             (cref s (FL a c k' v' r # C)) (Some (cpar s (FL a c k' v' r # C))) =
           (case ins_desc lt k (FL a c k' v' r # C) l of
              (C', Leaf) \<Rightarrow> Some (Inr ((hp H s (plug C' (Node Leaf b RED k v Leaf)), Suc b), (Some b, True)))
            | (C', Node l' a' c' k'' v'' r') \<Rightarrow>
                Some (Inr ((hp H s (plug (FL a c k' v' r # C) l), b), (Some a', False))))"
    using Node.prems by (intro Node.IH(1)) auto
  have R: "insert_rec lt (hp H s (plug (FR l a c k' v' # C) r)) b (k, v)
             (cref s (FR l a c k' v' # C)) (Some (cpar s (FR l a c k' v' # C))) =
           (case ins_desc lt k (FR l a c k' v' # C) r of
              (C', Leaf) \<Rightarrow> Some (Inr ((hp H s (plug C' (Node Leaf b RED k v Leaf)), Suc b), (Some b, True)))
            | (C', Node l' a' c' k'' v'' r') \<Rightarrow>
                Some (Inr ((hp H s (plug (FR l a c k' v' # C) r), b), (Some a', False))))"
    using Node.prems by (intro Node.IH(2)) auto
  show ?case
    using Node.prems(1) L R
    by (subst insert_rec.simps) (simp add: get_ref_cref gd split: prod.splits tree.splits)
qed

lemma addrs_nodes: "addrs t = map fst (nodes t)"
  by (induction t) auto

lemma entries_nodes: "entries t = map snd (nodes t)"
  by (induction t) auto

lemma rep_node_of:
  "rep h p t \<Longrightarrow> distinct (addrs t) \<Longrightarrow> a \<in> set (addrs t) \<Longrightarrow> h a = node_of p t a"
  by (induction t arbitrary: p) auto

lemma node_of_rep:
  "(\<And>a. a \<in> set (addrs t) \<Longrightarrow> h a = node_of p t a) \<Longrightarrow> distinct (addrs t) \<Longrightarrow> rep h p t"
proof (induction t arbitrary: p)
  case Leaf
  then show ?case by simp
next
  case (Node l x c k v r)
  have "h x = node_of p (Node l x c k v r) x" using Node.prems(1) by simp
  moreover have "rep h x l"
  proof (rule Node.IH(1))
    show "h a = node_of x l a" if "a \<in> set (addrs l)" for a
      using Node.prems(1) [of a] Node.prems(2) that by auto
    show "distinct (addrs l)" using Node.prems(2) by simp
  qed
  moreover have "rep h x r"
  proof (rule Node.IH(2))
    show "h a = node_of x r a" if "a \<in> set (addrs r)" for a
      using Node.prems(1) [of a] Node.prems(2) that by auto
    show "distinct (addrs r)" using Node.prems(2) by simp
  qed
  ultimately show ?case by simp
qed

lemma wf_tree_hp: "wf_tree h s t \<Longrightarrow> h = hp h s t"
proof
  fix a
  assume wf: "wf_tree h s t"
  show "h a = hp h s t a"
  proof (cases "a = s")
    case True
    with wf show ?thesis by (simp add: wf_tree_def sentinel_ok_def snode_def)
  next
    case ns: False
    show ?thesis
    proof (cases "a \<in> set (addrs t)")
      case True
      with wf ns show ?thesis
        using rep_node_of [of h s t a] by (simp add: wf_tree_def hp_node)
    next
      case False
      with ns show ?thesis by (simp add: hp_def)
    qed
  qed
qed

lemma hp_wf_tree: "distinct (s # addrs t) \<Longrightarrow> wf_tree (hp H s t) s t"
  unfolding wf_tree_def
proof (intro conjI)
  assume d: "distinct (s # addrs t)"
  show "sentinel_ok (hp H s t) s (root_ptr t)" by (simp add: sentinel_ok_def snode_def)
  show "rep (hp H s t) s t"
    using d by (intro node_of_rep) (auto simp: hp_def split: option.splits)
  show "distinct (s # addrs t)" by fact
qed

lemma find_rec_refine:
  "distinct (s # addrs (plug C t)) \<Longrightarrow>
   find_rec lt (hp H s (plug C t)) k (root_ptr t) = Some (Inr (lookup_node lt k t))"
proof (induction t arbitrary: C)
  case Leaf
  then show ?case by (subst find_rec.simps) simp
next
  case (Node l a c k' v' r)
  have L: "find_rec lt (hp H s (plug (FL a c k' v' r # C) l)) k (root_ptr l)
           = Some (Inr (lookup_node lt k l))"
    using Node.prems by (intro Node.IH(1)) auto
  have R: "find_rec lt (hp H s (plug (FR l a c k' v' # C) r)) k (root_ptr r)
           = Some (Inr (lookup_node lt k r))"
    using Node.prems by (intro Node.IH(2)) auto
  show ?case
    using hp_focus [OF Node.prems, of H] L R
    by (subst find_rec.simps) (simp add: getters)
qed

lemma lookup_node_absent:
  "\<forall>x \<in> set (entries t). \<not> equal_key lt k (fst x) \<Longrightarrow> lookup_node lt k t = None"
  by (induction t) auto

lemma lookup_node_sound:
  "lookup_node lt k t = Some a \<Longrightarrow> \<exists>k' v. (a, k', v) \<in> set (nodes t) \<and> equal_key lt k k'"
  by (induction t) (auto split: if_splits)

lemma equal_key_sym: "equal_key lt x y = equal_key lt y x"
  by (auto simp: equal_key_def)

lemma lookup_node_present:
  assumes swo: "strict_weak_order lt"
  shows "bst lt t \<Longrightarrow> (a, k', v) \<in> set (nodes t) \<Longrightarrow> equal_key lt k k'
         \<Longrightarrow> lookup_node lt k t = Some a"
proof (induction t)
  case Leaf
  then show ?case by simp
next
  case (Node l x c kx vx r)
  from swo have tr: "\<And>x y z. lt x y \<Longrightarrow> lt y z \<Longrightarrow> lt x z"
    and eqtr: "\<And>x y z. equal_key lt x y \<Longrightarrow> equal_key lt y z \<Longrightarrow> equal_key lt x z"
    unfolding strict_weak_order_def by blast+
  have bl: "bst lt l" and br: "bst lt r"
    and ll: "\<forall>e \<in> set (nodes l). lt (fst (snd e)) kx"
    and rr: "\<forall>e \<in> set (nodes r). lt kx (fst (snd e))"
    using Node.prems(1) by (auto simp: bst_def entries_nodes sorted_wrt_append)
  consider "(a, k', v) \<in> set (nodes l)" | "(a, k', v) = (x, kx, vx)" | "(a, k', v) \<in> set (nodes r)"
    using Node.prems(2) by auto
  then show ?case
  proof cases
    case 1
    then have lk: "lt k' kx" using ll by auto
    have "\<not> equal_key lt k kx"
      using eqtr [of k' k kx] Node.prems(3) lk by (auto simp: equal_key_def)
    moreover have "lt k kx"
    proof (rule ccontr)
      assume "\<not> lt k kx"
      with \<open>\<not> equal_key lt k kx\<close> have "lt kx k" by (auto simp: equal_key_def)
      with lk have "lt k' k" using tr by blast
      with Node.prems(3) show False by (auto simp: equal_key_def)
    qed
    ultimately show ?thesis using Node.IH(1) [OF bl 1 Node.prems(3)] by simp
  next
    case 2
    with Node.prems(3) show ?thesis by simp
  next
    case 3
    then have lk: "lt kx k'" using rr by auto
    have ne: "\<not> equal_key lt k kx"
      using eqtr [of kx k k'] Node.prems(3) lk by (auto simp: equal_key_def)
    moreover have "\<not> lt k kx"
    proof
      assume "lt k kx"
      with lk have "lt k k'" using tr by blast
      with Node.prems(3) show False by (auto simp: equal_key_def)
    qed
    ultimately show ?thesis using Node.IH(2) [OF br 3 Node.prems(3)] by simp
  qed
qed

lemma nodes_zip: "nodes t = zip (addrs t) (entries t)"
  by (induction t) (auto simp: addrs_nodes entries_nodes)

lemma length_cpre: "length (cpre C) = length (epre C)" "length (cpost C) = length (epost C)"
  by (induction C rule: cpre.induct) (auto simp: addrs_nodes entries_nodes)

lemma length_addrs_entries: "length (addrs t) = length (entries t)"
  by (induction t) auto

lemma nodes_plug:
  "nodes (plug C t) = zip (cpre C) (epre C) @ nodes t @ zip (cpost C) (epost C)"
  by (simp add: nodes_zip addrs_plug entries_plug length_cpre length_addrs_entries)

lemma ins_desc_root: "root_ptr (snd (ins_desc lt k C t)) = lookup_node lt k t"
  by (induction t arbitrary: C) (auto simp: equal_key_sym [of lt k])

lemma map_inv_unfold:
  assumes "map_inv st this T"
  obtains m s where "maps st this = Some m" "sentinel m = Some s" "len m = length (addrs T)"
    "heap st = hp (heap st) s T" "distinct (s # addrs T)" "\<forall>a. brk st \<le> a \<longrightarrow> heap st a = None"
proof -
  from assms obtain m s where m: "maps st this = Some m" "sentinel m = Some s"
      "len m = length (addrs T)" and wf: "wf_tree (heap st) s T"
      and al: "\<forall>a. brk st \<le> a \<longrightarrow> heap st a = None"
    by (auto simp: map_inv_def split: option.splits)
  from wf have "heap st = hp (heap st) s T" by (rule wf_tree_hp)
  moreover from wf have "distinct (s # addrs T)" by (simp add: wf_tree_def)
  ultimately show ?thesis using that m al by blast
qed

lemma map_invI:
  assumes "maps st this = Some m" "sentinel m = Some s" "len m = length (addrs T)"
    "heap st = hp H s T" "distinct (s # addrs T)" "\<forall>a. brk st \<le> a \<longrightarrow> heap st a = None"
  shows "map_inv st this T"
  using assms hp_wf_tree [of s T H] by (simp add: map_inv_def)

lemma live_below_brk:
  assumes "heap st = hp (heap st) s T" "\<forall>a. brk st \<le> a \<longrightarrow> heap st a = None"
  shows "s < brk st" "\<forall>a \<in> set (addrs T). a < brk st"
proof -
  have "heap st s \<noteq> None" by (subst assms(1)) simp
  with assms(2) show "s < brk st" by (meson not_le)
  show "\<forall>a \<in> set (addrs T). a < brk st"
  proof
    fix a assume a: "a \<in> set (addrs T)"
    have "heap st a \<noteq> None"
      by (subst assms(1)) (use a in \<open>auto simp: hp_def split: option.splits\<close>)
    with assms(2) show "a < brk st" by (meson not_le)
  qed
qed

lemma map_insert_present:
  assumes inv: "map_inv st this T" and bst: "bst lt T" and swo: "strict_weak_order lt"
    and mem: "(a, k', v') \<in> set (nodes T)" and eq: "equal_key lt k' k"
  shows "map_insert lt st this (k, w) = Some (Inr (st, \<lparr>map_ptr = Some this, ptr = Some a\<rparr>, False))"
proof -
  from inv obtain m s where m: "maps st this = Some m" "sentinel m = Some s"
    and h: "heap st = hp (heap st) s T" and d: "distinct (s # addrs T)"
    and al: "\<forall>a. brk st \<le> a \<longrightarrow> heap st a = None"
    by (rule map_inv_unfold)
  have fresh: "brk st \<notin> set (s # addrs T)"
    using live_below_brk [OF h al] by auto
  have "lookup_node lt k T = Some a"
    using lookup_node_present [OF swo bst mem] eq by (simp add: equal_key_sym)
  then obtain C' l c k'' v'' r where desc: "ins_desc lt k [] T = (C', Node l a c k'' v'' r)"
    using ins_desc_root [of lt k "[]" T]
    by (cases "ins_desc lt k [] T"; cases "snd (ins_desc lt k [] T)") auto
  have ir: "insert_rec lt (heap st) (brk st) (k, w) (LeftOf (Some s)) (Some s)
            = Some (Inr ((heap st, brk st), (Some a, False)))"
    using insert_rec_refine [of s "[]" T "brk st" lt "heap st" k w] d fresh desc h by simp
  have "st\<lparr>heap := heap st, brk := brk st, maps := (maps st)(this \<mapsto> m)\<rparr> = st"
    using m(1) by (simp add: fun_upd_idem)
  then show ?thesis
    using m ir by (simp add: map_insert_def get_map_def)
qed

lemma map_insert_absent:
  assumes inv: "map_inv st this T" and rb: "rbt lt T" and swo: "strict_weak_order lt"
    and abs: "\<forall>x \<in> set (entries T). \<not> equal_key lt (fst x) k"
  shows "\<exists>st' T' xs ys. map_insert lt st this (k, v)
            = Some (Inr (st', \<lparr>map_ptr = Some this, ptr = Some (brk st)\<rparr>, True))
          \<and> map_inv st' this T' \<and> rbt lt T'
          \<and> nodes T = xs @ ys \<and> nodes T' = xs @ (brk st, k, v) # ys
          \<and> (\<forall>x. x \<noteq> this \<longrightarrow> maps st' x = maps st x)"
proof -
  from inv obtain m s where m: "maps st this = Some m" "sentinel m = Some s"
    and ln: "len m = length (addrs T)"
    and h: "heap st = hp (heap st) s T" and d: "distinct (s # addrs T)"
    and al: "\<forall>a. brk st \<le> a \<longrightarrow> heap st a = None"
    by (rule map_inv_unfold)
  define b where "b = brk st"
  have below: "s < b" "\<forall>a \<in> set (addrs T). a < b"
    using live_below_brk [OF h al] by (auto simp: b_def)
  then have fresh: "b \<notin> set (s # addrs T)" by auto
  from swo have tr: "transp lt" unfolding strict_weak_order_def transp_def by blast
  have "lookup_node lt k T = None"
    using abs by (intro lookup_node_absent) (simp add: equal_key_sym)
  then obtain C' where desc: "ins_desc lt k [] T = (C', Leaf)"
    using ins_desc_root [of lt k "[]" T]
    by (cases "ins_desc lt k [] T"; cases "snd (ins_desc lt k [] T)") auto
  have T: "T = plug C' Leaf" using ins_desc_plug [OF desc] by simp
  let ?n = "Node Leaf b RED k v Leaf"
  have bounds: "(\<forall>x \<in> set (epre C'). lt (fst x) k) \<and> (\<forall>y \<in> set (epost C'). lt k (fst y))"
    using ins_desc_bounds [OF tr _ _ _ desc] rb by (simp add: rbt_def)
  have ir: "insert_rec lt (heap st) b (k, v) (LeftOf (Some s)) (Some s)
            = Some (Inr ((hp (heap st) s (plug C' ?n), Suc b), (Some b, True)))"
    using insert_rec_refine [of s "[]" T b lt "heap st" k v] d fresh desc h by simp
  from rb have "invc (plug C' Leaf)" "invh (plug C' Leaf)" "col (plug C' Leaf) = BLACK"
    unfolding T [symmetric] by (simp_all add: rbt_def)
  then have "cinvc C'" "cinvh C' (bh ?n)" "croot C' BLACK = BLACK"
    by (simp_all add: invc_plug invh_plug col_plug)
  then obtain T' where fixr: "ins_fix C' ?n = Some T'" and c': "invc T'" "invh T'" "col T' = BLACK"
    and e': "entries T' = entries (plug C' ?n)" and a': "addrs T' = addrs (plug C' ?n)"
    using ins_fix_correct [of ?n C'] by auto
  have d1: "distinct (s # addrs (plug C' ?n))"
    using d fresh unfolding T by (auto simp: addrs_plug)
  have mf: "maintainAfterInsert (hp (heap st) s (plug C' ?n)) m (Some b) = Some (Inr (hp (heap st) s T'))"
    using maintainAfterInsert_refine [of C' ?n s m "heap st"] fixr d1 m(2) by simp
  define st' where "st' = st\<lparr>heap := hp (heap st) s T', brk := Suc b,
     maps := (maps st)(this \<mapsto> m\<lparr>len := len m + 1\<rparr>)\<rparr>"
  have res: "map_insert lt st this (k, v) = Some (Inr (st', \<lparr>map_ptr = Some this, ptr = Some b\<rparr>, True))"
    using m ir mf by (simp add: map_insert_def get_map_def b_def [symmetric] st'_def)
  have n': "nodes T' = nodes (plug C' ?n)"
    using e' a' by (simp add: nodes_zip)
  have inv': "map_inv st' this T'"
  proof (rule map_invI)
    show "maps st' this = Some (m\<lparr>len := len m + 1\<rparr>)" by (simp add: st'_def)
    show "sentinel (m\<lparr>len := len m + 1\<rparr>) = Some s" using m by simp
    show "len (m\<lparr>len := len m + 1\<rparr>) = length (addrs T')"
      using ln unfolding a' T by (simp add: addrs_plug)
    show "heap st' = hp (heap st) s T'" by (simp add: st'_def)
    show "distinct (s # addrs T')" using d1 a' by simp
    show "\<forall>a. brk st' \<le> a \<longrightarrow> heap st' a = None"
    proof (intro allI impI)
      fix a assume "brk st' \<le> a"
      then have ge: "Suc b \<le> a" by (simp add: st'_def)
      from below have "\<forall>x \<in> set (addrs T'). x \<le> b"
        unfolding a' T by (auto simp: addrs_plug intro: less_imp_le)
      with ge below have "a \<noteq> s" "a \<notin> set (addrs T')"
        by auto
      moreover have "heap st a = None" using al ge by (simp add: b_def)
      ultimately show "heap st' a = None" by (simp add: st'_def hp_def)
    qed
  qed
  have "sorted_wrt lt (map fst (epre C' @ epost C'))"
    using rb unfolding T by (simp add: rbt_def bst_def entries_plug)
  with bounds have "bst lt T'"
    unfolding bst_def e' by (auto simp: entries_plug sorted_wrt_append)
  with c' have rb': "rbt lt T'" by (simp add: rbt_def)
  have "nodes T = zip (cpre C') (epre C') @ zip (cpost C') (epost C')"
    unfolding T by (simp add: nodes_plug)
  moreover have "nodes T' = zip (cpre C') (epre C') @ (b, k, v) # zip (cpost C') (epost C')"
    unfolding n' by (simp add: nodes_plug)
  moreover have "\<forall>x. x \<noteq> this \<longrightarrow> maps st' x = maps st x" by (simp add: st'_def)
  ultimately show ?thesis using res inv' rb' unfolding b_def by blast
qed

lemma swo_nat: "strict_weak_order ((<) :: nat \<Rightarrow> nat \<Rightarrow> bool)"
  by (auto simp: strict_weak_order_def equal_key_def)

lemma rbt_ex: "rbt (<) ex_tree"
  by (simp add: rbt_def bst_def ex_tree_def)

lemma equal_key_refl: "strict_weak_order lt \<Longrightarrow> equal_key lt k k"
  by (simp add: strict_weak_order_def equal_key_def)

lemma node_of_data:
  "distinct (addrs t) \<Longrightarrow> (a, k, v) \<in> set (nodes t)
   \<Longrightarrow> \<exists>n. node_of p t a = Some n \<and> data n = Some (k, v)"
proof (induction t arbitrary: p)
  case Leaf
  then show ?case by simp
next
  case (Node l x c kx vx r)
  have m: "\<And>e t. e \<in> set (nodes t) \<Longrightarrow> fst e \<in> set (addrs t)"
    by (auto simp: addrs_nodes)
  consider "(a, k, v) \<in> set (nodes l)" | "(a, k, v) = (x, kx, vx)" | "(a, k, v) \<in> set (nodes r)"
    using Node.prems(2) by auto
  then show ?case
  proof cases
    case 1
    with m [of "(a, k, v)" l] Node.prems(1) have "a \<in> set (addrs l)" "a \<noteq> x" by auto
    then show ?thesis using Node.IH(1) [of x] 1 Node.prems(1) by auto
  next
    case 2
    then show ?thesis by simp
  next
    case 3
    with m [of "(a, k, v)" r] Node.prems(1) have "a \<in> set (addrs r)" "a \<noteq> x" "a \<notin> set (addrs l)"
      by auto
    then show ?thesis using Node.IH(2) [of x] 3 Node.prems(1) by auto
  qed
qed

lemma map_inv_data:
  assumes "map_inv st this T" "(a, k, v) \<in> set (nodes T)"
  shows "get_data (heap st) (Some a) = Inr (k, v)"
proof -
  from assms(1) obtain m s where h: "heap st = hp (heap st) s T" and d: "distinct (s # addrs T)"
    by (rule map_inv_unfold)
  from assms(2) have a: "a \<in> set (addrs T)" by (force simp: addrs_nodes)
  with d have "a \<noteq> s" by auto
  with a have "heap st a = node_of s T a" by (subst h) (simp add: hp_node)
  with node_of_data [of T a k v s] d assms(2) show ?thesis
    by (auto simp: getters)
qed

lemma map_at_present:
  assumes inv: "map_inv st this T" and bst: "bst lt T" and swo: "strict_weak_order lt"
    and mem: "(a, k', v) \<in> set (nodes T)" and eq: "equal_key lt k k'"
  shows "map_at lt st this k = Some (Inr (Some a, v))"
    and "map_index_const lt st this k = Some (Inr (Some a, v))"
    and "map_find lt st this k = Some (Inr \<lparr>map_ptr = Some this, ptr = Some a\<rparr>)"
    and "map_count lt st this k = Some (Inr 1)"
proof -
  from inv obtain m s where m: "maps st this = Some m" "sentinel m = Some s"
    and h: "heap st = hp (heap st) s T" and d: "distinct (s # addrs T)"
    by (rule map_inv_unfold)
  have root: "get_left (heap st) (Some s) = Inr (root_ptr T)"
    by (subst h) (simp add: getters)
  have "find_rec lt (hp (heap st) s (plug [] T)) k (root_ptr T) = Some (Inr (lookup_node lt k T))"
    using d by (intro find_rec_refine) simp
  then have f: "find_rec lt (heap st) k (root_ptr T) = Some (Inr (Some a))"
    using h lookup_node_present [OF swo bst mem eq] by simp
  show "map_at lt st this k = Some (Inr (Some a, v))"
    using m root f map_inv_data [OF inv mem] by (simp add: map_at_def get_map_def)
  show "map_index_const lt st this k = Some (Inr (Some a, v))"
    using m root f map_inv_data [OF inv mem] by (simp add: map_index_const_def get_map_def)
  show "map_find lt st this k = Some (Inr \<lparr>map_ptr = Some this, ptr = Some a\<rparr>)"
    using m root f by (simp add: map_find_def get_map_def)
  show "map_count lt st this k = Some (Inr 1)"
    using m root f by (simp add: map_count_def get_map_def)
qed

lemma map_at_absent:
  assumes inv: "map_inv st this T" and abs: "\<forall>x \<in> set (entries T). \<not> equal_key lt k (fst x)"
  shows "map_at lt st this k = Some (Inl index_out_of_bound)"
    and "map_index_const lt st this k = Some (Inl index_out_of_bound)"
    and "map_find lt st this k = Some (map_end st this)"
    and "map_count lt st this k = Some (Inr 0)"
proof -
  from inv obtain m s where m: "maps st this = Some m" "sentinel m = Some s"
    and h: "heap st = hp (heap st) s T" and d: "distinct (s # addrs T)"
    by (rule map_inv_unfold)
  have root: "get_left (heap st) (Some s) = Inr (root_ptr T)"
    by (subst h) (simp add: getters)
  have "find_rec lt (hp (heap st) s (plug [] T)) k (root_ptr T) = Some (Inr (lookup_node lt k T))"
    using d by (intro find_rec_refine) simp
  then have f: "find_rec lt (heap st) k (root_ptr T) = Some (Inr None)"
    using h lookup_node_absent [OF abs] by simp
  show "map_at lt st this k = Some (Inl index_out_of_bound)"
    using m root f by (simp add: map_at_def get_map_def)
  show "map_index_const lt st this k = Some (Inl index_out_of_bound)"
    using m root f by (simp add: map_index_const_def get_map_def)
  show "map_find lt st this k = Some (map_end st this)"
    using m root f by (simp add: map_find_def get_map_def)
  show "map_count lt st this k = Some (Inr 0)"
    using m root f by (simp add: map_count_def get_map_def)
qed

lemma map_size_inv: "map_inv st this T \<Longrightarrow> map_size st this = Inr (length (entries T))"
  by (erule map_inv_unfold) (simp add: map_size_def get_map_def length_addrs_entries)

lemma ex_nodes: "nodes ex_tree = [(2, 1, 10), (1, 2, 20), (3, 3, 30)]"
  by (simp add: ex_tree_def)

lemma ex_entries: "entries ex_tree = [(1, 10), (2, 20), (3, 30)]"
  by (simp add: ex_tree_def)

lemma descend_left_focus:
  "distinct (s # addrs (plug C (Node l a c k v r))) \<Longrightarrow>
   descend_left (hp H s (plug C (Node l a c k v r))) (Some a) = Some (Inr (Some (leftmost l a)))"
proof (induction l arbitrary: C a c k v r)
  case Leaf
  then show ?case by (subst descend_left.simps) (simp add: hsimps)
next
  case (Node l1 x cx kx vx l2)
  have "descend_left (hp H s (plug (FL a c k v r # C) (Node l1 x cx kx vx l2))) (Some x)
        = Some (Inr (Some (leftmost l1 x)))"
    using Node.prems by (intro Node.IH(1)) simp
  then show ?case using Node.prems
    by (subst descend_left.simps) (simp add: hsimps)
qed

lemma descend_right_focus:
  "distinct (s # addrs (plug C (Node l a c k v r))) \<Longrightarrow>
   descend_right (hp H s (plug C (Node l a c k v r))) (Some a) = Some (Inr (Some (rightmost r a)))"
proof (induction r arbitrary: C a c k v l)
  case Leaf
  then show ?case by (subst descend_right.simps) (simp add: hsimps)
next
  case (Node r1 x cx kx vx r2)
  have "descend_right (hp H s (plug (FR l a c k v # C) (Node r1 x cx kx vx r2))) (Some x)
        = Some (Inr (Some (rightmost r2 x)))"
    using Node.prems by (intro Node.IH(2)) simp
  then show ?case using Node.prems
    by (subst descend_right.simps) (simp add: hsimps)
qed

lemma descend_left_sentinel:
  "distinct (s # addrs T) \<Longrightarrow> descend_left (hp H s T) (Some s) = Some (Inr (Some (leftmost T s)))"
proof (cases T)
  case Leaf
  then show ?thesis by (subst descend_left.simps) (simp add: hsimps snode_def)
next
  case (Node l a c k v r)
  assume "distinct (s # addrs T)"
  then show ?thesis using descend_left_focus [of s "[]" l a c k v r H] Node
    by (subst descend_left.simps) (simp add: hsimps snode_def)
qed

lemma get_parent_focus:
  "distinct (s # addrs (plug C (Node l n c k v r))) \<Longrightarrow>
   get_parent (hp H s (plug C (Node l n c k v r))) (Some n) = Inr (Some (cpar s C))"
  by (simp add: hp_focus getters)

lemma climb_right_focus:
  "distinct (s # addrs (plug C (Node l a c k v r))) \<Longrightarrow>
   climb_right (hp H s (plug C (Node l a c k v r))) (Some a) = Some (Inr (Some (first_left_anc s C)))"
proof (induction s C arbitrary: l a c k v r rule: first_left_anc.induct)
  case (1 s)
  then show ?case
    by (subst climb_right.simps) (simp add: hsimps snode_def)
next
  case (2 s p cp kp vp pr C)
  then show ?case
    by (subst climb_right.simps) (simp add: hsimps snode_def)
next
  case (3 s pl p cp kp vp C)
  have "climb_right (hp H s (plug C (Node pl p cp kp vp (Node l a c k v r)))) (Some p)
        = Some (Inr (Some (first_left_anc s C)))"
    using 3 by (intro "3.IH") simp
  then show ?case using "3.prems"
    by (subst climb_right.simps) (simp add: hsimps snode_def)
qed

lemma climb_left_focus:
  "distinct (s # addrs (plug C (Node l a c k v r))) \<Longrightarrow> cpre C \<noteq> [] \<Longrightarrow>
   climb_left (hp H s (plug C (Node l a c k v r))) (Some a) = Some (Inr (Some (first_right_anc s C)))"
proof (induction s C arbitrary: l a c k v r rule: first_right_anc.induct)
  case (1 s)
  then show ?case by simp
next
  case (2 s p cp kp vp pr C)
  have "climb_left (hp H s (plug C (Node (Node l a c k v r) p cp kp vp pr))) (Some p)
        = Some (Inr (Some (first_right_anc s C)))"
    using 2 by (intro "2.IH") simp_all
  then show ?case using "2.prems"
    by (subst climb_left.simps) (simp add: hsimps snode_def)
next
  case (3 s pl p cp kp vp C)
  then show ?case
    by (subst climb_left.simps) (simp add: hsimps snode_def)
qed

lemma leftmost_hd: "leftmost t d = hd (addrs t @ [d])"
  by (induction t arbitrary: d) (auto simp: hd_append)

lemma rightmost_last: "rightmost t d = last (d # addrs t)"
  by (induction t arbitrary: d) auto

lemma first_left_anc_hd: "first_left_anc s C = hd (cpost C @ [s])"
  by (induction s C rule: first_left_anc.induct) auto

lemma first_right_anc_last: "first_right_anc s C = last (s # cpre C)"
  by (induction s C rule: first_right_anc.induct) auto

lemma successor_hd: "successor s C r = hd (addrs r @ cpost C @ [s])"
  by (cases r) (auto simp: successor_def first_left_anc_hd leftmost_hd hd_append)

lemma predecessor_last: "predecessor s C l = last (s # cpre C @ addrs l)"
  by (cases l) (auto simp: predecessor_def first_right_anc_last rightmost_last)

lemma increment_focus:
  assumes "map_inv st this (plug C (Node l a c k v r))" "maps st this = Some m" "sentinel m = Some s"
  shows "iterator_increment st \<lparr>map_ptr = Some this, ptr = Some a\<rparr>
         = Some (Inr \<lparr>map_ptr = Some this, ptr = Some (successor s C r)\<rparr>)"
proof -
  let ?T = "plug C (Node l a c k v r)"
  from assms obtain h: "heap st = hp (heap st) s ?T" and d: "distinct (s # addrs ?T)"
    by (auto elim!: map_inv_unfold)
  have as: "a \<noteq> s" using d by (auto simp: addrs_plug)
  have r: "get_right (heap st) (Some a) = Inr (root_ptr r)"
    by (subst h) (simp add: hp_focus [OF d] getters)
  show ?thesis
  proof (cases r)
    case Leaf
    have "climb_right (heap st) (Some a) = Some (Inr (Some (first_left_anc s C)))"
      by (subst h) (rule climb_right_focus [OF d])
    then show ?thesis using assms(2,3) r as Leaf
      by (simp add: iterator_increment_def get_map_def successor_def)
  next
    case (Node rl x cx kx vx rr)
    have d': "distinct (s # addrs (plug (FR l a c k v # C) (Node rl x cx kx vx rr)))"
      using d Node by simp
    have "descend_left (heap st) (Some x) = Some (Inr (Some (leftmost rl x)))"
      using descend_left_focus [OF d', of H] h Node
      by (metis descend_left_focus d' plug.simps(2) plug1.simps(2))
    then show ?thesis using assms(2,3) r as Node
      by (simp add: iterator_increment_def get_map_def successor_def)
  qed
qed

lemma decrement_focus:
  assumes "map_inv st this (plug C (Node l a c k v r))" "maps st this = Some m" "sentinel m = Some s"
    and ne: "cpre C @ addrs l \<noteq> []"
  shows "iterator_decrement st \<lparr>map_ptr = Some this, ptr = Some a\<rparr>
         = Some (Inr \<lparr>map_ptr = Some this, ptr = Some (predecessor s C l)\<rparr>)"
proof -
  let ?T = "plug C (Node l a c k v r)"
  from assms obtain h: "heap st = hp (heap st) s ?T" and d: "distinct (s # addrs ?T)"
    by (auto elim!: map_inv_unfold)
  have b: "descend_left (heap st) (Some s) = Some (Inr (Some (leftmost ?T s)))"
    by (subst h) (rule descend_left_sentinel [OF d])
  have "hd (addrs ?T @ [s]) = hd (cpre C @ addrs l)"
    using ne by (simp add: addrs_plug hd_append)
  moreover have "hd (cpre C @ addrs l) \<in> set (cpre C @ addrs l)" using ne by (intro hd_in_set)
  ultimately have nb: "a \<noteq> leftmost ?T s"
    using d unfolding leftmost_hd by (auto simp: addrs_plug)
  have l: "get_left (heap st) (Some a) = Inr (root_ptr l)"
    by (subst h) (simp add: hp_focus [OF d] getters)
  show ?thesis
  proof (cases l)
    case Leaf
    with ne have "cpre C \<noteq> []" by simp
    then have "climb_left (heap st) (Some a) = Some (Inr (Some (first_right_anc s C)))"
      by (subst h) (rule climb_left_focus [OF d])
    then show ?thesis using assms(2,3) l b nb Leaf
      by (simp add: iterator_decrement_def get_map_def predecessor_def)
  next
    case (Node ll x cx kx vx lr)
    have d': "distinct (s # addrs (plug (FL a c k v r # C) (Node ll x cx kx vx lr)))"
      using d Node by simp
    have "descend_right (hp (heap st) s (plug (FL a c k v r # C) (Node ll x cx kx vx lr))) (Some x)
          = Some (Inr (Some (rightmost lr x)))"
      by (rule descend_right_focus [OF d'])
    then have "descend_right (heap st) (Some x) = Some (Inr (Some (rightmost lr x)))"
      using h Node by simp
    then show ?thesis using assms(2,3) l b nb Node
      by (simp add: iterator_decrement_def get_map_def predecessor_def)
  qed
qed

lemma decrement_end:
  assumes "map_inv st this T" "maps st this = Some m" "sentinel m = Some s" "T \<noteq> Leaf"
  shows "iterator_decrement st \<lparr>map_ptr = Some this, ptr = Some s\<rparr>
         = Some (Inr \<lparr>map_ptr = Some this, ptr = Some (last (addrs T))\<rparr>)"
proof -
  from assms obtain h: "heap st = hp (heap st) s T" and d: "distinct (s # addrs T)"
    by (auto elim!: map_inv_unfold)
  obtain l x c k v r where T: "T = Node l x c k v r" using assms(4) by (cases T) auto
  have b: "descend_left (heap st) (Some s) = Some (Inr (Some (leftmost T s)))"
    by (subst h) (rule descend_left_sentinel [OF d])
  have "leftmost T s \<in> set (addrs T)" unfolding leftmost_hd using T by (auto simp: hd_append)
  then have nb: "s \<noteq> leftmost T s" using d by auto
  have l: "get_left (heap st) (Some s) = Inr (Some x)"
    by (subst h) (simp add: getters snode_def T)
  have "descend_right (hp (heap st) s (plug [] (Node l x c k v r))) (Some x)
        = Some (Inr (Some (rightmost r x)))"
    using d T by (intro descend_right_focus) simp
  then have "descend_right (heap st) (Some x) = Some (Inr (Some (rightmost r x)))"
    using h T by simp
  moreover have "rightmost r x = last (addrs T)" by (simp add: T rightmost_last)
  ultimately show ?thesis using assms(2,3) l b nb
    by (simp add: iterator_decrement_def get_map_def)
qed

lemma nth_split:
  assumes "distinct (ys @ a # zs)" "i < length (ys @ a # zs)" "(ys @ a # zs) ! i = a"
  shows "i = length ys"
proof -
  have "(ys @ a # zs) ! length ys = a" by simp
  moreover have "length ys < length (ys @ a # zs)" by simp
  ultimately show ?thesis using assms nth_eq_iff_index_eq by metis
qed

lemma zoom_nth:
  assumes d: "distinct (addrs T)" and i: "i < length (addrs T)"
  obtains C l a c k v r where "T = plug C (Node l a c k v r)" "a = addrs T ! i"
    "length (cpre C @ addrs l) = i"
proof -
  let ?a = "addrs T ! i"
  from i have "?a \<in> set (addrs T)" by simp
  from zoom [OF this] obtain C l c k v r where T: "T = plug C (Node l ?a c k v r)" by blast
  have e: "addrs T = (cpre C @ addrs l) @ ?a # (addrs r @ cpost C)"
    by (subst T) (simp add: addrs_plug)
  have "i = length (cpre C @ addrs l)"
    using d i e nth_split [of "cpre C @ addrs l" ?a "addrs r @ cpost C" i] by simp
  with T that show ?thesis by blast
qed

lemma positions_nth:
  "i \<le> length (addrs T)
   \<Longrightarrow> positions this s T ! i = \<lparr>map_ptr = Some this, ptr = Some ((addrs T @ [s]) ! i)\<rparr>"
  unfolding positions_def by (intro nth_map) simp

lemma increment_nth:
  assumes inv: "map_inv st this T" and m: "maps st this = Some m" "sentinel m = Some s"
    and i: "i < length (addrs T)"
  shows "iterator_increment st (positions this s T ! i) = Some (Inr (positions this s T ! Suc i))"
proof -
  from inv m have d: "distinct (s # addrs T)" by (auto elim!: map_inv_unfold)
  then have "distinct (addrs T)" by simp
  from zoom_nth [OF this i] obtain C l a c k v r where T: "T = plug C (Node l a c k v r)"
    and a: "a = addrs T ! i" and n: "length (cpre C @ addrs l) = i" by blast
  have e: "addrs T @ [s] = (cpre C @ addrs l) @ a # (addrs r @ cpost C @ [s])"
    by (subst T) (simp add: addrs_plug)
  have "(addrs T @ [s]) ! Suc i = (addrs r @ cpost C @ [s]) ! 0"
    unfolding e using n by (metis add.right_neutral nth_Cons_Suc nth_append_length_plus plus_1_eq_Suc add_Suc_right)
  also have "\<dots> = successor s C r" unfolding successor_hd by (simp add: hd_conv_nth)
  finally have s: "(addrs T @ [s]) ! Suc i = successor s C r" .
  have "(addrs T @ [s]) ! i = a" using a i by (simp add: nth_append)
  with s increment_focus [OF inv [unfolded T] m] i show ?thesis
    by (simp add: positions_nth)
qed

lemma decrement_nth:
  assumes inv: "map_inv st this T" and m: "maps st this = Some m" "sentinel m = Some s"
    and i: "i < length (addrs T)"
  shows "iterator_decrement st (positions this s T ! Suc i) = Some (Inr (positions this s T ! i))"
proof (cases "Suc i = length (addrs T)")
  case True
  then have ne: "T \<noteq> Leaf" by auto
  have "(addrs T @ [s]) ! Suc i = s" using True by (simp add: nth_append)
  moreover have "(addrs T @ [s]) ! i = last (addrs T)"
    using True i by (metis Suc_inject butlast_snoc last_conv_nth length_0_conv length_Suc_conv_rev
        length_butlast nth_append diff_Suc_1 list.size(3) not_less_zero)
  ultimately show ?thesis using decrement_end [OF inv m ne] i True
    by (simp add: positions_nth)
next
  case False
  with i have j: "Suc i < length (addrs T)" by simp
  from inv m have d: "distinct (s # addrs T)" by (auto elim!: map_inv_unfold)
  then have "distinct (addrs T)" by simp
  from zoom_nth [OF this j] obtain C l a c k v r where T: "T = plug C (Node l a c k v r)"
    and a: "a = addrs T ! Suc i" and n: "length (cpre C @ addrs l) = Suc i" by blast
  from n have ne: "cpre C @ addrs l \<noteq> []" by auto
  have e: "addrs T = (cpre C @ addrs l) @ a # (addrs r @ cpost C)"
    by (subst T) (simp add: addrs_plug)
  have "i < length (cpre C @ addrs l)" using n by simp
  then have "((cpre C @ addrs l) @ a # (addrs r @ cpost C)) ! i = (cpre C @ addrs l) ! i"
    by (metis nth_append)
  then have "addrs T ! i = (cpre C @ addrs l) ! i" using e by simp
  also have "\<dots> = last (cpre C @ addrs l)" using n ne by (simp add: last_conv_nth)
  also have "\<dots> = predecessor s C l" unfolding predecessor_last using ne by auto
  finally have p: "addrs T ! i = predecessor s C l" .
  from decrement_focus [OF inv [unfolded T] m ne] a p i j show ?thesis
    by (simp add: positions_nth nth_append)
qed

lemmas rsimps = maintainAfterRemove_case1_def maintainAfterRemove_case4_def
  maintainAfterRemove_case5_def rotateSameDirection_def rotateOppositeDirection_def

lemma nr_left_refine:
  "nr_left p cp kp vp S \<noteq> None \<Longrightarrow>
   distinct (s # addrs (plug (FL p cp kp vp S # C) (Node l n BLACK k v r))) \<Longrightarrow> sentinel m = Some s \<Longrightarrow>
   maintainAfterRemove (hp H s (plug (FL p cp kp vp S # C) (Node l n BLACK k v r))) m (Some n)
   = Some (Inr (hp H s (plug (the (nr_left p cp kp vp S) @ C) (Node l n BLACK k v r))))"
  by (induction p cp kp vp S rule: nr_left.induct;
      subst maintainAfterRemove.simps; simp add: hsimps rsimps)

lemma nr_right_refine:
  "nr_right p cp kp vp S \<noteq> None \<Longrightarrow>
   distinct (s # addrs (plug (FR S p cp kp vp # C) (Node l n BLACK k v r))) \<Longrightarrow> sentinel m = Some s \<Longrightarrow>
   maintainAfterRemove (hp H s (plug (FR S p cp kp vp # C) (Node l n BLACK k v r))) m (Some n)
   = Some (Inr (hp H s (plug (the (nr_right p cp kp vp S) @ C) (Node l n BLACK k v r))))"
  by (induction p cp kp vp S rule: nr_right.induct;
      subst maintainAfterRemove.simps; simp add: hsimps rsimps)

lemma c1_left_refine:
  "nr_left p cp kp vp SL \<noteq> None \<Longrightarrow> cp = RED \<Longrightarrow>
   distinct (s # addrs (plug (FL p BLACK kp vp (Node SL s' RED ks vs (Node a2 sr BLACK k2 v2 b2)) # C)
       (Node l n BLACK k v r))) \<Longrightarrow> sentinel m = Some s \<Longrightarrow>
   maintainAfterRemove (hp H s (plug (FL p BLACK kp vp (Node SL s' RED ks vs (Node a2 sr BLACK k2 v2 b2)) # C)
       (Node l n BLACK k v r))) m (Some n)
   = Some (Inr (hp H s (plug (the (nr_left p cp kp vp SL) @ FL s' BLACK ks vs (Node a2 sr BLACK k2 v2 b2) # C)
       (Node l n BLACK k v r))))"
  by (induction p cp kp vp SL rule: nr_left.induct;
      subst maintainAfterRemove.simps; simp add: hsimps rsimps)

lemma c1_right_refine:
  "nr_right p cp kp vp SR \<noteq> None \<Longrightarrow> cp = RED \<Longrightarrow>
   distinct (s # addrs (plug (FR (Node (Node a1 sl BLACK k1 v1 b1) s' RED ks vs SR) p BLACK kp vp # C)
       (Node l n BLACK k v r))) \<Longrightarrow> sentinel m = Some s \<Longrightarrow>
   maintainAfterRemove (hp H s (plug (FR (Node (Node a1 sl BLACK k1 v1 b1) s' RED ks vs SR) p BLACK kp vp # C)
       (Node l n BLACK k v r))) m (Some n)
   = Some (Inr (hp H s (plug (the (nr_right p cp kp vp SR) @ FR (Node a1 sl BLACK k1 v1 b1) s' BLACK ks vs # C)
       (Node l n BLACK k v r))))"
  by (induction p cp kp vp SR rule: nr_right.induct;
      subst maintainAfterRemove.simps; simp add: hsimps rsimps)


section \<open>The claims\<close>

subsection \<open>C2: assignment\<close>

text \<open>
  C2 (fails on the code). After \<open>a = b\<close> the map \<open>a\<close> should be an independent deep
  clone of \<open>b\<close>, also when \<open>b\<close> is empty. \<open>operator=\<close> releases the nodes of \<open>a\<close> with
  the private \<open>clear\<close>, which leaves \<open>sentinel->left\<close> pointing at the released root, and
  \<open>copy\<close> returns without writing that pointer when the source tree is empty (the public
  \<open>clear()\<close> resets it). For \<open>a\<close> holding the key 1 and \<open>b\<close> empty, the next statement of
  \<open>operator=\<close> already writes through the dangling pointer.
\<close>

theorem C2_assign_from_empty_uses_freed_node:
  "map_assign ex_two 0 1 = Some (Inl undefined_behaviour)"
proof -
  have "map_option (map_sum id (\<lambda>_. ())) (map_assign ex_two 0 1) = Some (Inl undefined_behaviour)"
    unfolding ex_two_def by code_simp
  then show ?thesis
    by (cases "map_assign ex_two 0 1") (auto simp: map_sum_def split: sum.splits)
qed

subsection \<open>C6: stepping over the ends\<close>

text \<open>
  C6. For every well-formed map, the empty one included, incrementing the iterator
  \<open>end()\<close> raises \<open>invalid_iterator\<close> and decrementing the iterator \<open>begin()\<close> raises
  \<open>invalid_iterator\<close>; no iterator is produced in either case.
\<close>

theorem C6_step_over_ends_raises:
  assumes "map_inv st this t"
  shows "(\<exists>e. map_end st this = Inr e \<and> iterator_increment st e = Some (Inl invalid_iterator))
       \<and> (\<exists>b. map_begin st this = Some (Inr b)
             \<and> iterator_decrement st b = Some (Inl invalid_iterator))"
proof -
  from assms obtain m s where m: "maps st this = Some m" "sentinel m = Some s"
    and wf: "wf_tree (heap st) s t"
    by (auto simp: map_inv_def split: option.splits)
  from wf obtain n where n: "heap st s = Some n" "left n = root_ptr t" and r: "rep (heap st) s t"
    by (auto simp: wf_tree_def sentinel_ok_def)
  have dl: "descend_left (heap st) (Some s) = Some (Inr (Some (leftmost t s)))"
    using descend_left_rep [OF r n] .
  show ?thesis
    using m dl
    by (simp add: map_end_def map_begin_def get_map_def iterator_increment_def
        iterator_decrement_def)
qed

theorem C6_witness:
  "map_inv ex_state 0 ex_tree
   \<and> (\<exists>e. map_end ex_state 0 = Inr e \<and> iterator_increment ex_state e = Some (Inl invalid_iterator))
   \<and> (\<exists>b. map_begin ex_state 0 = Some (Inr b)
         \<and> iterator_decrement ex_state b = Some (Inl invalid_iterator))"
  using C6_step_over_ends_raises [OF map_inv_ex] map_inv_ex by simp

subsection \<open>C10: member access at \<open>end()\<close>\<close>

text \<open>
  C10. On the iterator \<open>end()\<close> of a well-formed map, \<open>operator->\<close> makes no check and
  raises nothing: it returns the sentinel's null \<open>data\<close> pointer. \<open>operator*\<close> on the same
  iterator raises \<open>invalid_iterator\<close>.
\<close>

theorem C10_arrow_unchecked_at_end:
  assumes "map_inv st this t"
  shows "\<exists>e. map_end st this = Inr e \<and> iterator_arrow st e = Inr None
           \<and> iterator_deref st e = Inl invalid_iterator"
  using assms
  by (auto simp: map_inv_def map_end_def get_map_def iterator_arrow_def iterator_deref_def
       wf_tree_def sentinel_ok_def deref_def split: option.splits)

theorem C10_witness:
  "map_inv ex_state 0 ex_tree
   \<and> (\<exists>e. map_end ex_state 0 = Inr e \<and> iterator_arrow ex_state e = Inr None
         \<and> iterator_deref ex_state e = Inl invalid_iterator)"
  using C10_arrow_unchecked_at_end [OF map_inv_ex] map_inv_ex by simp

subsection \<open>C3: inserting a key that is present\<close>

text \<open>
  C3. In a well-formed map that holds an element with a key equivalent to \<open>k\<close>, stored with value
  \<open>v\<close> in node \<open>a\<close>, \<open>insert((k, w))\<close> returns an iterator to node \<open>a\<close> with \<open>inserted = false\<close>, and
  the state it leaves is the state it started from: no link, colour, stored value or size changes.
\<close>

theorem C3_insert_present_is_noop:
  assumes "map_inv st this T" and "rbt lt T" and "strict_weak_order lt"
    and "(a, k', v) \<in> set (nodes T)" and "equal_key lt k' k"
  shows "map_insert lt st this (k, w) = Some (Inr (st, \<lparr>map_ptr = Some this, ptr = Some a\<rparr>, False))
         \<and> get_data (heap st) (Some a) = Inr (k', v)"
  using map_insert_present [OF assms(1) _ assms(3) assms(4) assms(5)] assms(2)
    map_inv_data [OF assms(1) assms(4)]
  by (simp add: rbt_def)

theorem C3_witness:
  "map_inv ex_state 0 ex_tree \<and> rbt (<) ex_tree \<and> strict_weak_order ((<) :: nat \<Rightarrow> nat \<Rightarrow> bool)
   \<and> (2, 1, 10) \<in> set (nodes ex_tree) \<and> equal_key (<) (1::nat) 1
   \<and> map_insert (<) ex_state 0 (1, 99) = Some (Inr (ex_state, \<lparr>map_ptr = Some 0, ptr = Some 2\<rparr>, False))
   \<and> get_data (heap ex_state) (Some 2) = Inr (1, 10)"
  using C3_insert_present_is_noop [OF map_inv_ex rbt_ex swo_nat, of 2 1 10 1 99]
    map_inv_ex rbt_ex swo_nat
  by (simp add: ex_nodes equal_key_def)

subsection \<open>C5: \<open>at\<close>\<close>

text \<open>
  C5. In a well-formed map, \<open>at(k)\<close> returns the value stored in the node whose key is equivalent
  to \<open>k\<close>, and raises \<open>index_out_of_bound\<close> when no stored key is equivalent to \<open>k\<close>. \<open>at\<close> only
  reads: it returns no new state.
\<close>

theorem C5_at_checked_lookup:
  assumes "map_inv st this T" and "rbt lt T" and "strict_weak_order lt"
  shows "(\<forall>a k' v. (a, k', v) \<in> set (nodes T) \<and> equal_key lt k k'
            \<longrightarrow> map_at lt st this k = Some (Inr (Some a, v)))
         \<and> ((\<forall>x \<in> set (entries T). \<not> equal_key lt k (fst x))
            \<longrightarrow> map_at lt st this k = Some (Inl index_out_of_bound))"
  using map_at_present(1) [OF assms(1) _ assms(3)] map_at_absent(1) [OF assms(1)] assms(2)
  by (auto simp: rbt_def)

theorem C5_witness:
  "map_inv ex_state 0 ex_tree \<and> rbt (<) ex_tree \<and> strict_weak_order ((<) :: nat \<Rightarrow> nat \<Rightarrow> bool)
   \<and> map_at (<) ex_state 0 3 = Some (Inr (Some 3, 30))
   \<and> map_at (<) ex_state 0 7 = Some (Inl index_out_of_bound)"
  using C5_at_checked_lookup [OF map_inv_ex rbt_ex swo_nat, of 3]
    C5_at_checked_lookup [OF map_inv_ex rbt_ex swo_nat, of 7]
    map_inv_ex rbt_ex swo_nat
  by (auto simp: ex_nodes ex_entries equal_key_def)

subsection \<open>C9: what \<open>insert\<close> leaves alone\<close>

text \<open>
  C9. In a well-formed map, \<open>insert((k, v))\<close> returns, the map it leaves is well formed, the pairs
  stored under keys not equivalent to \<open>k\<close> are the same, in the same order, before and after, and
  a key is present afterwards exactly when it was present before or is equivalent to \<open>k\<close>.
\<close>

theorem C9_insert_frame:
  assumes "map_inv st this T" and "rbt lt T" and "strict_weak_order lt"
  shows "\<exists>st' it ins T'. map_insert lt st this (k, v) = Some (Inr (st', it, ins))
           \<and> map_inv st' this T'
           \<and> filter (\<lambda>e. \<not> equal_key lt (fst e) k) (entries T')
             = filter (\<lambda>e. \<not> equal_key lt (fst e) k) (entries T)
           \<and> (\<forall>x. has_key lt T' x \<longleftrightarrow> has_key lt T x \<or> equal_key lt k x)"
proof (cases "\<exists>x \<in> set (entries T). equal_key lt (fst x) k")
  case True
  then obtain k' v' where e: "(k', v') \<in> set (entries T)" and eq: "equal_key lt k' k" by auto
  then obtain a where mem: "(a, k', v') \<in> set (nodes T)" by (force simp: entries_nodes)
  have bst: "bst lt T" using assms(2) by (simp add: rbt_def)
  have tr: "\<And>x. equal_key lt k x \<Longrightarrow> equal_key lt k' x"
    using assms(3) eq unfolding strict_weak_order_def by blast
  have "has_key lt T x \<longleftrightarrow> has_key lt T x \<or> equal_key lt k x" for x
    using e tr [of x] by (force simp: has_key_def)
  with map_insert_present [OF assms(1) bst assms(3) mem eq, of v] assms(1) show ?thesis
    by blast
next
  case False
  then have abs: "\<forall>x \<in> set (entries T). \<not> equal_key lt (fst x) k" by simp
  from map_insert_absent [OF assms abs, of v] obtain st' T' xs ys where
    r: "map_insert lt st this (k, v)
          = Some (Inr (st', \<lparr>map_ptr = Some this, ptr = Some (brk st)\<rparr>, True))"
    and inv: "map_inv st' this T'"
    and n: "nodes T = xs @ ys" "nodes T' = xs @ (brk st, k, v) # ys"
    by blast
  have e: "entries T = map snd xs @ map snd ys" "entries T' = map snd xs @ (k, v) # map snd ys"
    using n by (simp_all add: entries_nodes)
  have kk: "equal_key lt k k" using assms(3) by (rule equal_key_refl)
  have f: "filter (\<lambda>e. \<not> equal_key lt (fst e) k) (entries T')
             = filter (\<lambda>e. \<not> equal_key lt (fst e) k) (entries T)"
    using kk by (simp add: e)
  have "has_key lt T' x \<longleftrightarrow> has_key lt T x \<or> equal_key lt k x" for x
    by (auto simp: has_key_def e)
  with r inv f show ?thesis by blast
qed

theorem C9_witness:
  "map_inv ex_state 0 ex_tree \<and> rbt (<) ex_tree \<and> strict_weak_order ((<) :: nat \<Rightarrow> nat \<Rightarrow> bool)
   \<and> (\<exists>st' it ins T'. map_insert (<) ex_state 0 (4, 40) = Some (Inr (st', it, ins))
         \<and> map_inv st' 0 T'
         \<and> filter (\<lambda>e. fst e \<noteq> 4) (entries T') = [(1, 10), (2, 20), (3, 30)]
         \<and> (\<forall>x. has_key (<) T' x \<longleftrightarrow> x \<in> {1, 2, 3, 4}))"
proof -
  have k: "has_key (<) ex_tree x \<longleftrightarrow> x \<in> {1, 2, 3}" for x :: nat
    by (auto simp: has_key_def ex_entries equal_key_def)
  have e: "equal_key (<) a b \<longleftrightarrow> a = b" for a b :: nat
    by (auto simp: equal_key_def)
  from C9_insert_frame [OF map_inv_ex rbt_ex swo_nat, of 4 40] map_inv_ex rbt_ex swo_nat
  show ?thesis by (simp add: k e ex_entries)
qed

subsection \<open>C4: indexed access\<close>

text \<open>
  C4. In a well-formed map with no key equivalent to \<open>k\<close>, \<open>map[k]\<close> returns a reference into a
  new node that holds \<open>k\<close> with the default value; the map it leaves is well formed, has that one
  node more than before and a \<open>size()\<close> larger by one. A second \<open>map[k]\<close> returns the same node
  and leaves the state, and so the size, as it was. The read-only \<open>operator[]\<close> on the absent key
  raises \<open>index_out_of_bound\<close>.
\<close>

theorem C4_index_inserts_once:
  assumes "map_inv st this T" and "rbt lt T" and "strict_weak_order lt"
    and "\<forall>x \<in> set (entries T). \<not> equal_key lt (fst x) k"
  shows "\<exists>st1 T1 a xs ys n.
           map_index lt dflt st this k = Some (Inr (st1, Some a, dflt))
           \<and> map_inv st1 this T1 \<and> nodes T = xs @ ys \<and> nodes T1 = xs @ (a, k, dflt) # ys
           \<and> map_size st this = Inr n \<and> map_size st1 this = Inr (n + 1)
           \<and> map_index lt dflt st1 this k = Some (Inr (st1, Some a, dflt))
           \<and> map_index_const lt st this k = Some (Inl index_out_of_bound)"
proof -
  from map_insert_absent [OF assms, of dflt] obtain st1 T1 xs ys where
    r: "map_insert lt st this (k, dflt)
          = Some (Inr (st1, \<lparr>map_ptr = Some this, ptr = Some (brk st)\<rparr>, True))"
    and inv: "map_inv st1 this T1" and rb: "rbt lt T1"
    and n: "nodes T = xs @ ys" "nodes T1 = xs @ (brk st, k, dflt) # ys"
    by blast
  have mem: "(brk st, k, dflt) \<in> set (nodes T1)" using n by simp
  have d: "get_data (heap st1) (Some (brk st)) = Inr (k, dflt)"
    using inv mem by (rule map_inv_data)
  have kk: "equal_key lt k k" using assms(3) by (rule equal_key_refl)
  have bst: "bst lt T1" using rb by (simp add: rbt_def)
  have r2: "map_insert lt st1 this (k, dflt)
          = Some (Inr (st1, \<lparr>map_ptr = Some this, ptr = Some (brk st)\<rparr>, False))"
    using inv bst assms(3) mem kk by (rule map_insert_present)
  have ar: "iterator_arrow st1 \<lparr>map_ptr = Some this, ptr = Some (brk st)\<rparr> = Inr (Some (k, dflt))"
    using d by (auto simp: iterator_arrow_def getters deref_def split: option.splits)
  have i1: "map_index lt dflt st this k = Some (Inr (st1, Some (brk st), dflt))"
    by (simp add: map_index_def r ar)
  have i2: "map_index lt dflt st1 this k = Some (Inr (st1, Some (brk st), dflt))"
    by (simp add: map_index_def r2 ar)
  have abs: "\<forall>x \<in> set (entries T). \<not> equal_key lt k (fst x)"
    using assms(4) equal_key_sym [of lt] by blast
  have s: "map_size st this = Inr (length (entries T))"
    "map_size st1 this = Inr (length (entries T) + 1)"
    using map_size_inv [OF assms(1)] map_size_inv [OF inv] n by (simp_all add: entries_nodes)
  from i1 i2 inv n s map_at_absent(2) [OF assms(1) abs] show ?thesis by blast
qed

theorem C4_witness:
  "map_inv ex_state 0 ex_tree \<and> rbt (<) ex_tree \<and> strict_weak_order ((<) :: nat \<Rightarrow> nat \<Rightarrow> bool)
   \<and> \<not> has_key (<) ex_tree (4::nat)
   \<and> (\<exists>st1 T1 a xs ys.
           map_index (<) (0::nat) ex_state 0 4 = Some (Inr (st1, Some a, 0))
           \<and> map_inv st1 0 T1 \<and> nodes ex_tree = xs @ ys \<and> nodes T1 = xs @ (a, 4, 0) # ys
           \<and> map_size ex_state 0 = Inr 3 \<and> map_size st1 0 = Inr 4
           \<and> map_index (<) 0 st1 0 4 = Some (Inr (st1, Some a, 0))
           \<and> map_index_const (<) ex_state 0 4 = Some (Inl index_out_of_bound))"
proof -
  have a: "\<forall>x \<in> set (entries ex_tree). \<not> equal_key (<) (fst x) (4::nat)"
    by (simp add: ex_entries equal_key_def)
  have s: "map_size ex_state 0 = Inr 3"
    using map_size_inv [OF map_inv_ex] by (simp add: ex_entries)
  from C4_index_inserts_once [OF map_inv_ex rbt_ex swo_nat a, of 0]
  obtain st1 T1 a xs ys n where
    "map_index (<) (0::nat) ex_state 0 4 = Some (Inr (st1, Some a, 0))"
    "map_inv st1 0 T1" "nodes ex_tree = xs @ ys" "nodes T1 = xs @ (a, 4, 0) # ys"
    "map_size ex_state 0 = Inr n" "map_size st1 0 = Inr (n + 1)"
    "map_index (<) 0 st1 0 4 = Some (Inr (st1, Some a, 0))"
    "map_index_const (<) ex_state 0 4 = Some (Inl index_out_of_bound)"
    by blast
  with s map_inv_ex rbt_ex swo_nat a show ?thesis by (auto simp: has_key_def)
qed

subsection \<open>C8: stepping an iterator\<close>

text \<open>
  C8. In a well-formed map with sentinel \<open>s\<close>, the iterators are the in-order nodes followed by
  \<open>end()\<close>, all different; \<open>begin()\<close> is the first and \<open>end()\<close> the last. For every position \<open>i\<close>
  but the last, \<open>++\<close> takes iterator \<open>i\<close> to iterator \<open>i + 1\<close> and \<open>--\<close> takes iterator \<open>i + 1\<close> back to
  iterator \<open>i\<close>, so \<open>--\<close> after \<open>++\<close> returns to every iterator other than \<open>end()\<close> and \<open>++\<close> after
  \<open>--\<close> returns to every iterator other than \<open>begin()\<close>. \<open>++\<close> on a node follows the successor
  rule: the leftmost node of the right subtree when there is one, otherwise the first
  ancestor reached by a step from a left child, the sentinel when there is none.
\<close>

theorem C8_increment_decrement_inverse:
  assumes "map_inv st this T" and "maps st this = Some m" and "sentinel m = Some s"
    and "i < length (addrs T)"
  shows "distinct (positions this s T)
       \<and> map_begin st this = Some (Inr (positions this s T ! 0))
       \<and> map_end st this = Inr (positions this s T ! length (addrs T))
       \<and> iterator_increment st (positions this s T ! i) = Some (Inr (positions this s T ! Suc i))
       \<and> iterator_decrement st (positions this s T ! Suc i) = Some (Inr (positions this s T ! i))
       \<and> bndp (iterator_increment st (positions this s T ! i)) (iterator_decrement st)
           = Some (Inr (positions this s T ! i))
       \<and> bndp (iterator_decrement st (positions this s T ! Suc i)) (iterator_increment st)
           = Some (Inr (positions this s T ! Suc i))
       \<and> (\<forall>C l a c k v r. T = plug C (Node l a c k v r) \<longrightarrow>
            iterator_increment st \<lparr>map_ptr = Some this, ptr = Some a\<rparr>
            = Some (Inr \<lparr>map_ptr = Some this, ptr = Some (successor s C r)\<rparr>))"
proof -
  from assms(1-3) obtain h: "heap st = hp (heap st) s T" and d: "distinct (s # addrs T)"
    by (auto elim!: map_inv_unfold)
  have 1: "distinct (positions this s T)"
    unfolding positions_def using d by (auto simp: distinct_map inj_on_def)
  have "descend_left (heap st) (Some s) = Some (Inr (Some (leftmost T s)))"
    by (subst h) (rule descend_left_sentinel [OF d])
  then have 2: "map_begin st this = Some (Inr (positions this s T ! 0))"
    using assms(2,3) by (simp add: map_begin_def get_map_def positions_nth leftmost_hd hd_conv_nth)
  have 3: "map_end st this = Inr (positions this s T ! length (addrs T))"
    using assms(2,3) by (simp add: map_end_def get_map_def positions_nth)
  note 4 = increment_nth [OF assms] and 5 = decrement_nth [OF assms]
  have 6: "\<forall>C l a c k v r. T = plug C (Node l a c k v r) \<longrightarrow>
            iterator_increment st \<lparr>map_ptr = Some this, ptr = Some a\<rparr>
            = Some (Inr \<lparr>map_ptr = Some this, ptr = Some (successor s C r)\<rparr>)"
  proof (intro allI impI)
    fix C l a c k v r
    assume T: "T = plug C (Node l a c k v r)"
    show "iterator_increment st \<lparr>map_ptr = Some this, ptr = Some a\<rparr>
            = Some (Inr \<lparr>map_ptr = Some this, ptr = Some (successor s C r)\<rparr>)"
      using assms(1) unfolding T by (rule increment_focus) (rule assms)+
  qed
  from 1 2 3 4 5 6 show ?thesis by simp
qed

theorem C8_witness:
  "map_inv ex_state 0 ex_tree \<and> maps ex_state 0 = Some \<lparr>sentinel = Some 0, len = 3\<rparr>
   \<and> positions 0 0 ex_tree ! 1 = \<lparr>map_ptr = Some 0, ptr = Some 1\<rparr>
   \<and> positions 0 0 ex_tree ! Suc 1 = \<lparr>map_ptr = Some 0, ptr = Some 3\<rparr>
   \<and> iterator_increment ex_state \<lparr>map_ptr = Some 0, ptr = Some 1\<rparr>
       = Some (Inr \<lparr>map_ptr = Some 0, ptr = Some 3\<rparr>)
   \<and> iterator_decrement ex_state \<lparr>map_ptr = Some 0, ptr = Some 3\<rparr>
       = Some (Inr \<lparr>map_ptr = Some 0, ptr = Some 1\<rparr>)
   \<and> bndp (iterator_increment ex_state \<lparr>map_ptr = Some 0, ptr = Some 1\<rparr>)
        (iterator_decrement ex_state) = Some (Inr \<lparr>map_ptr = Some 0, ptr = Some 1\<rparr>)
   \<and> bndp (iterator_decrement ex_state \<lparr>map_ptr = Some 0, ptr = Some 3\<rparr>)
        (iterator_increment ex_state) = Some (Inr \<lparr>map_ptr = Some 0, ptr = Some 3\<rparr>)"
proof -
  have m: "maps ex_state 0 = Some \<lparr>sentinel = Some 0, len = 3\<rparr>" by (simp add: ex_state_def)
  have p: "positions 0 0 ex_tree ! 1 = \<lparr>map_ptr = Some 0, ptr = Some 1\<rparr>"
    "positions 0 0 ex_tree ! Suc 1 = \<lparr>map_ptr = Some 0, ptr = Some 3\<rparr>"
    by (simp_all add: positions_def ex_tree_def)
  have i: "1 < length (addrs ex_tree)" by (simp add: ex_tree_def)
  from C8_increment_decrement_inverse [OF map_inv_ex m _ i, of 0] map_inv_ex m p
  show ?thesis by simp
qed

end
